theory Spec2Isabelle
  imports Main
begin

section \<open>Error values and contexts\<close>

text \<open>
  The package \<^verbatim>\<open>cancelgroup\<close> (file \<^verbatim>\<open>group.go\<close>) builds on three pieces of the Go
  standard library: \<^verbatim>\<open>context\<close>, \<^verbatim>\<open>sync.WaitGroup\<close> and \<^verbatim>\<open>sync.Once\<close> /
  \<^verbatim>\<open>sync.OnceValue\<close>. They are modelled here by their documented behaviour.

  A non-nil Go \<^verbatim>\<open>error\<close> is a value of \<open>err\<close>: the two sentinels of the standard
  library (\<^verbatim>\<open>context.Canceled\<close>, \<^verbatim>\<open>context.DeadlineExceeded\<close>), the two sentinels the
  package declares (\<^verbatim>\<open>ErrorGroupCanceled\<close>, \<^verbatim>\<open>ErrorParentContextCanceled\<close>), and any
  other error a task may return, told apart by a number. The Go type \<^verbatim>\<open>error\<close>
  itself, which may be \<^verbatim>\<open>nil\<close>, is \<open>err option\<close>.
\<close>

datatype err =
    Canceled
  | DeadlineExceeded
  | ErrorGroupCanceled
  | ErrorParentContextCanceled
  | TaskError nat

type_synonym error = "err option"

text \<open>
  A \<^verbatim>\<open>context.Context\<close>, as far as the package observes it: \<open>Background\<close> is
  \<^verbatim>\<open>context.Background()\<close>, which is never canceled; \<open>Active\<close> is a cancelable context
  that is not canceled yet; \<open>Ended e k\<close> is a canceled context whose \<^verbatim>\<open>Err()\<close> is \<open>e\<close>
  and whose \<^verbatim>\<open>context.Cause\<close> is \<open>k\<close>. The channel \<^verbatim>\<open>Done()\<close> is closed exactly in
  the third case.
\<close>

datatype "context" = Background | Active | Ended err err

fun Err :: "context \<Rightarrow> error" where
  "Err (Ended e k) = Some e"
| "Err _ = None"

fun Cause :: "context \<Rightarrow> error" where
  "Cause (Ended e k) = Some k"
| "Cause _ = None"

fun Done :: "context \<Rightarrow> bool" where
  "Done (Ended e k) = True"
| "Done _ = False"

text \<open>
  \<^verbatim>\<open>(*cancelCtx).cancel(_, err, cause)\<close> of the standard library: a nil cause is
  replaced by \<^verbatim>\<open>err\<close>, and a context that is already canceled is left as it is
  (\<^verbatim>\<open>if c.err != nil { return // already canceled }\<close>). The documentation of
  \<^verbatim>\<open>context.Cause\<close> and \<^verbatim>\<open>context.CancelCauseFunc\<close> says the same: the first cancellation
  of a context or of one of its parents sets the cause; a cancellation without a cause
  gives \<^verbatim>\<open>Cause(c) == c.Err()\<close>; \<^verbatim>\<open>Cause\<close> is \<^verbatim>\<open>nil\<close> while the context is not canceled;
  and if the context has already been canceled, its cancel function does not set the
  cause: when the parent is canceled with \<^verbatim>\<open>cause1\<close> before the child is canceled with
  \<^verbatim>\<open>cause2\<close>, then \<^verbatim>\<open>Cause(parent) == Cause(child) == cause1\<close>.
\<close>

fun cancel :: "err \<Rightarrow> error \<Rightarrow> context \<Rightarrow> context" where
  "cancel e cause (Ended e' k') = Ended e' k'"
| "cancel e cause _ = Ended e (case cause of None \<Rightarrow> e | Some k \<Rightarrow> k)"

text \<open>
  \<^verbatim>\<open>context.WithCancelCause(parent)\<close> returns a child context and its
  \<^verbatim>\<open>CancelCauseFunc\<close>. A child of a canceled parent is canceled at once with the
  parent's \<^verbatim>\<open>Err()\<close> and the parent's cause (\<^verbatim>\<open>propagateCancel\<close>); otherwise it is live.
  The cancel function is \<^verbatim>\<open>func(cause error) { c.cancel(true, Canceled, cause) }\<close>.
\<close>

fun WithCancelCause :: "context \<Rightarrow> context" where
  "WithCancelCause (Ended e k) = cancel e (Some k) Active"
| "WithCancelCause _ = Active"

definition cancelCause :: "error \<Rightarrow> context \<Rightarrow> context" where
  "cancelCause cause c = cancel Canceled cause c"

text \<open>
  The parent propagates its cancellation to the child:
  \<^verbatim>\<open>child.cancel(false, parent.Err(), Cause(parent))\<close>.
\<close>

fun propagate :: "context \<Rightarrow> context \<Rightarrow> context" where
  "propagate (Ended e k) child = cancel e (Some k) child"
| "propagate _ child = child"

section \<open>The group\<close>

text \<open>
  \<^verbatim>\<open>type Task func() error\<close> and \<^verbatim>\<open>type CoordinatedTask func(ctx context.Context) error\<close>.
  A task is represented by the error it returns; a coordinated task may look at the
  group's context, and its result is taken from the context it sees when it returns.
  In \<^verbatim>\<open>group.go\<close> the method \<^verbatim>\<open>Go\<close> starts a \<^verbatim>\<open>Task\<close> (an uncoordinated unit of work) and
  the method \<^verbatim>\<open>Co\<close> starts a \<^verbatim>\<open>CoordinatedTask\<close>.
\<close>

type_synonym Task = "unit \<Rightarrow> error"
type_synonym CoordinatedTask = "context \<Rightarrow> error"

text \<open>
  The field \<^verbatim>\<open>waitFunction\<close> is \<^verbatim>\<open>sync.OnceValue(func() error { return wait(g) })\<close>.
  Its state is the state of the once cell together with the program point of the single
  evaluation of \<^verbatim>\<open>wait(g)\<close>:
  \<^item> \<open>Idle\<close>: the function was not entered yet;
  \<^item> \<open>AtSelect\<close>: \<^verbatim>\<open>wait\<close> has made the channel, started the watcher goroutine and
    blocks in \<^verbatim>\<open>select\<close>;
  \<^item> \<open>CtxDone\<close>: the case \<^verbatim>\<open><-g.ctx.Done()\<close> was taken, \<^verbatim>\<open>g.errored\<close> is about to run;
  \<^item> \<open>AtReturn\<close>: the \<^verbatim>\<open>select\<close> is over, \<^verbatim>\<open>return context.Cause(g.ctx)\<close> is next;
  \<^item> \<open>Valid r\<close>: \<^verbatim>\<open>wait\<close> has returned \<open>r\<close> and the once cell holds it.
\<close>

datatype wait_fn = Idle | AtSelect | CtxDone | AtReturn | Valid error

text \<open>
  \<^verbatim>\<open>type Group struct\<close>: \<open>wg\<close> is the counter of the \<^verbatim>\<open>sync.WaitGroup\<close>, \<open>errOnce\<close>
  tells whether the \<^verbatim>\<open>sync.Once\<close> has fired. The field \<^verbatim>\<open>cancelCause\<close> is the cancel
  function of \<open>ctx\<close>, the definition \<open>cancelCause\<close> above.
\<close>

record Group =
  wg :: int
  errOnce :: bool
  waitFunction :: wait_fn
  ctxParent :: "context"
  ctx :: "context"

definition NewWithContext :: "context \<Rightarrow> Group" where
  "NewWithContext c =
     \<lparr> wg = 0, errOnce = False, waitFunction = Idle, ctxParent = c,
       ctx = WithCancelCause c \<rparr>"

definition New :: Group where
  "New = NewWithContext Background"

text \<open>\<^verbatim>\<open>func (g *Group) done() { g.wg.Done() }\<close>\<close>

definition done_group :: "Group \<Rightarrow> Group" where
  "done_group g = g\<lparr>wg := wg g - 1\<rparr>"

text \<open>\<^verbatim>\<open>g.errOnce.Do(func() { g.cancelCause(err) })\<close>\<close>

definition errored :: "error \<Rightarrow> Group \<Rightarrow> Group" where
  "errored e g =
     (if errOnce g then g
      else g\<lparr>errOnce := True, ctx := cancelCause e (ctx g)\<rparr>)"

definition Cancel :: "Group \<Rightarrow> Group" where
  "Cancel g = errored (Some ErrorGroupCanceled) g"

section \<open>Goroutines and interleavings\<close>

text \<open>
  The goroutine started by \<^verbatim>\<open>Go\<close> or \<^verbatim>\<open>Co\<close>:
  \<^verbatim>\<open>
  go func() {
      defer g.done()
      if err := t(); err != nil {      // t(g.ctx) in Co
          g.errored(err)
      }
  }()
  \<close>
  It is \<open>RunTask t\<close> or \<open>RunCo t\<close> while the task runs, \<open>Deferred\<close> once the body is
  over and the deferred \<^verbatim>\<open>g.done()\<close> is still to run, and \<open>Exited\<close> after that.
\<close>

datatype routine = RunTask Task | RunCo CoordinatedTask | Deferred | Exited

text \<open>
  The goroutine started inside \<^verbatim>\<open>wait\<close>:
  \<^verbatim>\<open>go func() { g.wg.Wait(); ch <- nothing{} }()\<close>
  and \<^verbatim>\<open>(*WaitGroup).Wait\<close> of the standard library, which it runs:
  \<^verbatim>\<open>
  for {
      state := wg.state.Load()
      v := int32(state >> 32)              // the counter
      if v == 0 { return }                 // counter is 0, no need to wait
      if wg.state.CompareAndSwap(state, state+1) {   // one more waiter
          runtime_Semacquire(&wg.sema)
          if wg.state.Load() != 0 {
              panic("sync: WaitGroup is reused before previous Wait has returned")
          }
          return
      }
  }
  \<close>
  The watcher is
  \<^item> \<open>WgWait\<close> when it is started and has not yet read the counter in \<^verbatim>\<open>g.wg.Wait()\<close>;
  \<^item> \<open>Blocked\<close> when it has read a counter that is not zero, has registered as a waiter and
    sleeps on the semaphore;
  \<^item> \<open>Released\<close> when a \<^verbatim>\<open>g.wg.Done()\<close> has brought the counter to zero, has reset the
    waiters and released the semaphore, and the watcher has not yet run again;
  \<^item> \<open>Panicked\<close> when it has run again and found the counter raised meanwhile: the panic
    is not recovered, so the Go process ends there;
  \<^item> \<open>ChSend\<close> when \<^verbatim>\<open>g.wg.Wait()\<close> has returned and it offers the value on the unbuffered
    channel;
  \<^item> \<open>Delivered\<close> once \<^verbatim>\<open>select\<close> has received it.
\<close>

datatype watcher_pc = NotSpawned | WgWait | Blocked | Released | Panicked | ChSend | Delivered

text \<open>
  The whole system: the group, the goroutines of its tasks in the order they were
  started, the watcher, and the number of callers that are inside \<^verbatim>\<open>g.Wait()\<close>.
\<close>

record system =
  group :: Group
  routines :: "routine list"
  watcher :: watcher_pc
  pending :: nat

definition start :: "Group \<Rightarrow> system" where
  "start g = \<lparr> group = g, routines = [], watcher = NotSpawned, pending = 0 \<rparr>"

text \<open>
  \<^verbatim>\<open>g.wg.Add(1)\<close> followed by the \<^verbatim>\<open>go\<close> statement. \<^verbatim>\<open>Add\<close> itself panics when the
  counter becomes negative, or when it is raised from zero while a waiter is registered.
  Neither happens in a step of this model: every \<^verbatim>\<open>g.done()\<close> follows the \<^verbatim>\<open>Add(1)\<close> of its
  own goroutine, and a waiter is registered only on a counter that is not zero, the
  \<^verbatim>\<open>g.done()\<close> that brings it to zero clearing the waiters in the same step (see \<open>release\<close>
  and the invariant \<open>coherent\<close>). The misuse shows when the released watcher runs again.
\<close>

definition Go :: "Task \<Rightarrow> system \<Rightarrow> system" where
  "Go t s = s\<lparr> group := (group s)\<lparr>wg := wg (group s) + 1\<rparr>,
               routines := routines s @ [RunTask t] \<rparr>"

definition Co :: "CoordinatedTask \<Rightarrow> system \<Rightarrow> system" where
  "Co t s = s\<lparr> group := (group s)\<lparr>wg := wg (group s) + 1\<rparr>,
               routines := routines s @ [RunCo t] \<rparr>"

text \<open>
  \<^verbatim>\<open>g.wg.Done()\<close> is \<^verbatim>\<open>wg.Add(-1)\<close>. When it brings the counter to zero while a waiter is
  registered, it resets the waiters and releases the semaphore
  (\<^verbatim>\<open>wg.state.Store(0); runtime_Semrelease(&wg.sema, false, 0)\<close>): the sleeping watcher
  becomes runnable. \<open>release\<close> is this second half, after \<open>done_group\<close> has lowered the
  counter.
\<close>

definition release :: "system \<Rightarrow> system" where
  "release s = (if wg (group s) = 0 \<and> watcher s = Blocked then s\<lparr>watcher := Released\<rparr> else s)"

text \<open>The body of a task goroutine up to the deferred call.\<close>

definition report :: "error \<Rightarrow> Group \<Rightarrow> Group" where
  "report r g = (if r \<noteq> None then errored r g else g)"

text \<open>
  One atomic step of one goroutine. The events of the callers of the package are
  \<open>CallGo\<close>, \<open>CallCo\<close>, \<open>CallCancel\<close>, \<open>CallWait\<close> (a caller enters \<^verbatim>\<open>g.Wait()\<close>, that
  is \<^verbatim>\<open>g.waitFunction()\<close>) and \<open>WaitReturn r\<close> (a caller leaves \<^verbatim>\<open>g.Wait()\<close> with the
  value \<open>r\<close> of the once cell); \<open>ParentCancel e k\<close> is the owner of the parent context
  canceling it with \<^verbatim>\<open>Err()\<close> \<open>e\<close> and cause argument \<open>k\<close>, which cancels the group's
  context as its child; \<open>TaskReturn i\<close> and \<open>TaskDone i\<close> are the two steps of the \<open>i\<close>-th
  task goroutine. The others are the steps of
  \<^verbatim>\<open>
  func wait(g *Group) error {
      ch := make(chan nothing)
      go func() {
          g.wg.Wait()
          ch <- nothing{}
      }()
      select {
      case <-g.ctx.Done():
          g.errored(ErrorParentContextCanceled)
      case <-ch:
      }
      return context.Cause(g.ctx)
  }
  \<close>
  \<^item> \<open>WaitEnter\<close>: one of the callers inside \<^verbatim>\<open>g.Wait()\<close> is the one for which the once
    cell runs \<^verbatim>\<open>wait(g)\<close>; the channel is made and the watcher goroutine is started;
  \<^item> \<open>WatcherWake\<close>: \<^verbatim>\<open>g.wg.Wait()\<close> returns in the watcher: either at once, because it reads
    a zero counter, or after it was released, because the counter is still zero;
  \<^item> \<open>WatcherBlock\<close>: the watcher reads a counter that is not zero and goes to sleep;
  \<^item> \<open>WatcherPanic\<close>: the released watcher runs again and finds the counter raised by a
    \<^verbatim>\<open>Go\<close> or \<^verbatim>\<open>Co\<close> that came after its release: \<^verbatim>\<open>g.wg.Wait()\<close> panics;
  \<^item> \<open>SelectDone\<close>: \<^verbatim>\<open>select\<close> takes \<^verbatim>\<open>case <-g.ctx.Done()\<close>, which needs a canceled context;
  \<^item> \<open>SelectCh\<close>: \<^verbatim>\<open>select\<close> takes \<^verbatim>\<open>case <-ch\<close>, which needs the watcher at its send;
  \<^item> \<open>ErroredParent\<close>: \<^verbatim>\<open>g.errored(ErrorParentContextCanceled)\<close>;
  \<^item> \<open>ReturnCause\<close>: \<^verbatim>\<open>return context.Cause(g.ctx)\<close>, and the once cell keeps the value.
  When both cases of the \<^verbatim>\<open>select\<close> are ready, both events are enabled.
\<close>

datatype event =
    CallGo Task
  | CallCo CoordinatedTask
  | CallCancel
  | CallWait
  | WaitReturn error
  | ParentCancel err error
  | TaskReturn nat
  | TaskDone nat
  | WaitEnter
  | WatcherWake
  | WatcherBlock
  | WatcherPanic
  | SelectDone
  | SelectCh
  | ErroredParent
  | ReturnCause

fun step :: "event \<Rightarrow> system \<Rightarrow> system option" where
  "step (CallGo t) s = Some (Go t s)"
| "step (CallCo t) s = Some (Co t s)"
| "step CallCancel s = Some (s\<lparr>group := Cancel (group s)\<rparr>)"
| "step CallWait s = Some (s\<lparr>pending := pending s + 1\<rparr>)"
| "step (WaitReturn r) s =
     (if 0 < pending s \<and> waitFunction (group s) = Valid r
      then Some (s\<lparr>pending := pending s - 1\<rparr>) else None)"
| "step (ParentCancel e k) s =
     (if ctxParent (group s) = Active
      then let p = cancel e k Active in
        Some (s\<lparr>group := (group s)\<lparr>ctxParent := p, ctx := propagate p (ctx (group s))\<rparr>\<rparr>)
      else None)"
| "step (TaskReturn i) s =
     (if i < length (routines s) then
        (case routines s ! i of
           RunTask t \<Rightarrow>
             Some (s\<lparr>group := report (t ()) (group s), routines := (routines s)[i := Deferred]\<rparr>)
         | RunCo t \<Rightarrow>
             Some (s\<lparr>group := report (t (ctx (group s))) (group s),
                     routines := (routines s)[i := Deferred]\<rparr>)
         | _ \<Rightarrow> None)
      else None)"
| "step (TaskDone i) s =
     (if i < length (routines s) then
        (case routines s ! i of
           Deferred \<Rightarrow>
             Some (release
               (s\<lparr>group := done_group (group s), routines := (routines s)[i := Exited]\<rparr>))
         | _ \<Rightarrow> None)
      else None)"
| "step WaitEnter s =
     (if 0 < pending s \<and> waitFunction (group s) = Idle
      then Some (s\<lparr>group := (group s)\<lparr>waitFunction := AtSelect\<rparr>, watcher := WgWait\<rparr>)
      else None)"
| "step WatcherWake s =
     (if (watcher s = WgWait \<or> watcher s = Released) \<and> wg (group s) = 0
      then Some (s\<lparr>watcher := ChSend\<rparr>) else None)"
| "step WatcherBlock s =
     (if watcher s = WgWait \<and> wg (group s) \<noteq> 0
      then Some (s\<lparr>watcher := Blocked\<rparr>) else None)"
| "step WatcherPanic s =
     (if watcher s = Released \<and> wg (group s) \<noteq> 0
      then Some (s\<lparr>watcher := Panicked\<rparr>) else None)"
| "step SelectDone s =
     (if waitFunction (group s) = AtSelect \<and> Done (ctx (group s))
      then Some (s\<lparr>group := (group s)\<lparr>waitFunction := CtxDone\<rparr>\<rparr>) else None)"
| "step SelectCh s =
     (if waitFunction (group s) = AtSelect \<and> watcher s = ChSend
      then Some (s\<lparr>group := (group s)\<lparr>waitFunction := AtReturn\<rparr>, watcher := Delivered\<rparr>)
      else None)"
| "step ErroredParent s =
     (if waitFunction (group s) = CtxDone
      then Some (s\<lparr>group := (errored (Some ErrorParentContextCanceled) (group s))
                              \<lparr>waitFunction := AtReturn\<rparr>\<rparr>)
      else None)"
| "step ReturnCause s =
     (if waitFunction (group s) = AtReturn
      then Some (s\<lparr>group := (group s)\<lparr>waitFunction := Valid (Cause (ctx (group s)))\<rparr>\<rparr>)
      else None)"

text \<open>A schedule is a list of events; it runs if each event is enabled in its turn.\<close>

fun run :: "event list \<Rightarrow> system \<Rightarrow> system option" where
  "run [] s = Some s"
| "run (e # es) s = (case step e s of None \<Rightarrow> None | Some s' \<Rightarrow> run es s')"

section \<open>Observations on states and schedules\<close>

text \<open>
  The program order of \<^verbatim>\<open>wait\<close>: how far the single evaluation has come.
\<close>

fun rank :: "wait_fn \<Rightarrow> nat" where
  "rank Idle = 0"
| "rank AtSelect = 1"
| "rank CtxDone = 2"
| "rank AtReturn = 3"
| "rank (Valid r) = 4"

text \<open>The once cell of \<^verbatim>\<open>waitFunction\<close> holds a result.\<close>

fun is_valid :: "wait_fn \<Rightarrow> bool" where
  "is_valid (Valid r) = True"
| "is_valid _ = False"

text \<open>
  The steps that are left of one call of \<^verbatim>\<open>g.Wait()\<close> when, from the state \<open>s\<close> on, only
  \<^verbatim>\<open>wait\<close> and its watcher move: no task goroutine takes a step. \<open>Wait_alone s r\<close> is the
  schedule of a caller that enters \<^verbatim>\<open>g.Wait()\<close> in \<open>s\<close> and leaves it with \<open>r\<close>.
\<close>

definition wait_path :: "system \<Rightarrow> event list" where
  "wait_path s =
     (case waitFunction (group s) of
        Idle \<Rightarrow>
          WaitEnter # (if Done (ctx (group s)) then [SelectDone, ErroredParent, ReturnCause]
                       else [WatcherWake, SelectCh, ReturnCause])
      | AtSelect \<Rightarrow>
          (if Done (ctx (group s)) then [SelectDone, ErroredParent, ReturnCause]
           else if watcher s = WgWait \<or> watcher s = Released
             then [WatcherWake, SelectCh, ReturnCause]
           else [SelectCh, ReturnCause])
      | CtxDone \<Rightarrow> [ErroredParent, ReturnCause]
      | AtReturn \<Rightarrow> [ReturnCause]
      | Valid r \<Rightarrow> [])"

definition Wait_alone :: "system \<Rightarrow> error \<Rightarrow> event list" where
  "Wait_alone s r = CallWait # wait_path s @ [WaitReturn r]"

text \<open>The task goroutines that have not yet run their deferred \<^verbatim>\<open>g.done()\<close>.\<close>

fun live :: "routine \<Rightarrow> bool" where
  "live Exited = False"
| "live _ = True"

definition outstanding :: "routine list \<Rightarrow> nat" where
  "outstanding rs = length (filter live rs)"

text \<open>
  What holds in every state that a group built by \<^verbatim>\<open>NewWithContext\<close> can reach: the once
  of \<open>errored\<close> fires only by canceling the context; \<^verbatim>\<open>select\<close> takes the case
  \<^verbatim>\<open><-g.ctx.Done()\<close> only on a canceled context; a canceled parent has canceled its child;
  the watcher exists exactly once \<^verbatim>\<open>wait\<close> was entered, and has not delivered while
  \<^verbatim>\<open>wait\<close> is in \<^verbatim>\<open>select\<close>; a sleeping watcher means that some task goroutine
  has not finished; the counter of the wait group is the number of task goroutines that
  have not finished.
\<close>

definition coherent :: "system \<Rightarrow> bool" where
  "coherent s \<longleftrightarrow>
     (errOnce (group s) \<longrightarrow> Done (ctx (group s)))
   \<and> (waitFunction (group s) = CtxDone \<longrightarrow> Done (ctx (group s)))
   \<and> (Done (ctxParent (group s)) \<longrightarrow> Done (ctx (group s)))
   \<and> (waitFunction (group s) = Idle \<longleftrightarrow> watcher s = NotSpawned)
   \<and> (waitFunction (group s) = AtSelect \<longrightarrow> watcher s \<noteq> Delivered)
   \<and> (watcher s = Blocked \<longrightarrow> 0 < outstanding (routines s))
   \<and> wg (group s) = int (outstanding (routines s))"

text \<open>
  Events of a run in which every task succeeds, nobody calls \<^verbatim>\<open>Cancel\<close>, no coordinated
  task is started and the parent context is never canceled.
\<close>

fun benign :: "event \<Rightarrow> bool" where
  "benign (CallGo t) = (t () = None)"
| "benign (CallCo t) = False"
| "benign CallCancel = False"
| "benign (ParentCancel e k) = False"
| "benign _ = True"

fun scheduling :: "event \<Rightarrow> bool" where
  "scheduling (CallGo t) = True"
| "scheduling (CallCo t) = True"
| "scheduling _ = False"

fun succeeds :: "routine \<Rightarrow> bool" where
  "succeeds (RunTask t) = (t () = None)"
| "succeeds (RunCo t) = False"
| "succeeds _ = True"

text \<open>
  The states of such a run in which, moreover, nothing is started once a caller has
  entered \<^verbatim>\<open>Wait\<close>: the context is live, every task goroutine is one that succeeds, the
  watcher has been released or has passed \<^verbatim>\<open>g.wg.Wait()\<close> only on a zero counter, which
  stays zero, so that it has not panicked; \<^verbatim>\<open>wait\<close> has left \<^verbatim>\<open>select\<close> only by receiving
  from the watcher, and a cached result is \<^verbatim>\<open>nil\<close>.
\<close>

definition quiet :: "system \<Rightarrow> bool" where
  "quiet s \<longleftrightarrow>
     coherent s
   \<and> \<not> Done (ctx (group s))
   \<and> list_all succeeds (routines s)
   \<and> (watcher s = Released \<or> watcher s = ChSend \<or> watcher s = Delivered \<longrightarrow> wg (group s) = 0)
   \<and> watcher s \<noteq> Panicked
   \<and> (3 \<le> rank (waitFunction (group s)) \<longrightarrow> watcher s = Delivered)
   \<and> (is_valid (waitFunction (group s)) \<longrightarrow> waitFunction (group s) = Valid None)"

text \<open>
  The schedule that lets every task goroutine of a list run to its end, one after the
  other: the task returns and the deferred \<^verbatim>\<open>g.done()\<close> runs. \<open>i\<close> is the index of the
  first goroutine of the list among the goroutines of the group.
\<close>

fun finish :: "nat \<Rightarrow> routine list \<Rightarrow> event list" where
  "finish i [] = []"
| "finish i (RunTask t # rs) = TaskReturn i # TaskDone i # finish (Suc i) rs"
| "finish i (RunCo t # rs) = TaskReturn i # TaskDone i # finish (Suc i) rs"
| "finish i (Deferred # rs) = TaskDone i # finish (Suc i) rs"
| "finish i (Exited # rs) = finish (Suc i) rs"

definition finish_tasks :: "system \<Rightarrow> event list" where
  "finish_tasks s = finish 0 (routines s)"

text \<open>
  The process has ended by the panic of the watcher. The state is kept, so that a run
  shows the panic; what a schedule does after it has no counterpart in a Go program.
\<close>

definition aborted :: "system \<Rightarrow> bool" where
  "aborted s \<longleftrightarrow> watcher s = Panicked"

lemma cancel_Done: "Done c \<Longrightarrow> cancel e k c = c"
  by (cases c) simp_all

lemma Done_cancel: "Done (cancel e k c)"
  by (cases c) simp_all

lemma errored_ctx_Done: "Done (ctx g) \<Longrightarrow> ctx (errored e g) = ctx g"
  by (simp add: errored_def cancelCause_def cancel_Done)

lemma errored_waitFunction: "waitFunction (errored e g) = waitFunction g"
  by (simp add: errored_def)

lemma report_waitFunction: "waitFunction (report r g) = waitFunction g"
  by (simp add: report_def errored_waitFunction)

lemma report_ctx_Done: "Done (ctx g) \<Longrightarrow> ctx (report r g) = ctx g"
  by (simp add: report_def errored_ctx_Done)

lemma propagate_Done: "Done c \<Longrightarrow> propagate p c = c"
  by (cases p) (simp_all add: cancel_Done)

lemma step_ctx_Done:
  "step e s = Some s' \<Longrightarrow> Done (ctx (group s)) \<Longrightarrow> ctx (group s') = ctx (group s)"
  by (cases e)
     (auto simp: Go_def Co_def Cancel_def done_group_def release_def errored_ctx_Done report_ctx_Done
        propagate_Done Let_def split: if_splits routine.splits)

lemma run_ctx_Done:
  "run evs s = Some s' \<Longrightarrow> Done (ctx (group s)) \<Longrightarrow> ctx (group s') = ctx (group s)"
proof (induction evs arbitrary: s)
  case Nil
  then show ?case by simp
next
  case (Cons e evs)
  from Cons.prems(1) obtain s1 where s1: "step e s = Some s1" and r: "run evs s1 = Some s'"
    by (auto split: option.splits)
  from step_ctx_Done [OF s1 Cons.prems(2)] have eq: "ctx (group s1) = ctx (group s)" .
  with Cons.prems(2) have "Done (ctx (group s1))" by simp
  from Cons.IH [OF r this] eq show ?case by simp
qed

lemma step_Valid:
  "step e s = Some s' \<Longrightarrow> waitFunction (group s) = Valid r \<Longrightarrow> waitFunction (group s') = Valid r"
  by (cases e)
     (auto simp: Go_def Co_def Cancel_def done_group_def release_def errored_waitFunction report_waitFunction
        Let_def split: if_splits routine.splits)

lemma run_Valid:
  "run evs s = Some s' \<Longrightarrow> waitFunction (group s) = Valid r \<Longrightarrow> waitFunction (group s') = Valid r"
proof (induction evs arbitrary: s)
  case Nil
  then show ?case by simp
next
  case (Cons e evs)
  from Cons.prems(1) obtain s1 where s1: "step e s = Some s1" and r: "run evs s1 = Some s'"
    by (auto split: option.splits)
  from Cons.IH [OF r step_Valid [OF s1 Cons.prems(2)]] show ?case .
qed

lemma run_Valid_returns:
  "run evs s = Some s' \<Longrightarrow> waitFunction (group s) = Valid r \<Longrightarrow> WaitReturn r' \<in> set evs \<Longrightarrow> r' = r"
proof (induction evs arbitrary: s)
  case Nil
  then show ?case by simp
next
  case (Cons e evs)
  from Cons.prems(1) obtain s1 where s1: "step e s = Some s1" and r: "run evs s1 = Some s'"
    by (auto split: option.splits)
  have v1: "waitFunction (group s1) = Valid r" by (rule step_Valid [OF s1 Cons.prems(2)])
  show ?case
  proof (cases "e = WaitReturn r'")
    case True
    with s1 Cons.prems(2) show ?thesis by (auto split: if_splits)
  next
    case False
    with Cons.prems(3) have "WaitReturn r' \<in> set evs" by simp
    from Cons.IH [OF r v1 this] show ?thesis .
  qed
qed

lemma run_returns_agree:
  "run evs s = Some s' \<Longrightarrow> WaitReturn r1 \<in> set evs \<Longrightarrow> WaitReturn r2 \<in> set evs \<Longrightarrow> r1 = r2"
proof (induction evs arbitrary: s)
  case Nil
  then show ?case by simp
next
  case (Cons e evs)
  from Cons.prems(1) obtain s1 where s1: "step e s = Some s1" and r: "run evs s1 = Some s'"
    by (auto split: option.splits)
  show ?case
  proof (cases "\<exists>r. e = WaitReturn r")
    case True
    then obtain r0 where e: "e = WaitReturn r0" by blast
    with s1 have v: "waitFunction (group s) = Valid r0" by (auto split: if_splits)
    have "r1 = r0" by (rule run_Valid_returns [OF Cons.prems(1) v Cons.prems(2)])
    moreover have "r2 = r0" by (rule run_Valid_returns [OF Cons.prems(1) v Cons.prems(3)])
    ultimately show ?thesis by simp
  next
    case False
    with Cons.prems have "WaitReturn r1 \<in> set evs" "WaitReturn r2 \<in> set evs" by auto
    from Cons.IH [OF r this] show ?thesis .
  qed
qed

lemma step_waitFunction_cases:
  "step e s = Some s' \<Longrightarrow>
     waitFunction (group s') = waitFunction (group s)
   \<or> (e = WaitEnter \<and> waitFunction (group s) = Idle \<and> waitFunction (group s') = AtSelect)
   \<or> (e = SelectDone \<and> waitFunction (group s) = AtSelect \<and> waitFunction (group s') = CtxDone)
   \<or> (e = SelectCh \<and> waitFunction (group s) = AtSelect \<and> waitFunction (group s') = AtReturn)
   \<or> (e = ErroredParent \<and> waitFunction (group s) = CtxDone \<and> waitFunction (group s') = AtReturn)
   \<or> (e = ReturnCause \<and> waitFunction (group s) = AtReturn
        \<and> waitFunction (group s') = Valid (Cause (ctx (group s))))"
  by (cases e)
     (auto simp: Go_def Co_def Cancel_def done_group_def release_def errored_waitFunction report_waitFunction
        Let_def split: if_splits routine.splits)

lemma step_rank_mono:
  "step e s = Some s' \<Longrightarrow> rank (waitFunction (group s)) \<le> rank (waitFunction (group s'))"
  using step_waitFunction_cases [of e s s'] by auto

lemma run_rank_mono:
  "run evs s = Some s' \<Longrightarrow> rank (waitFunction (group s)) \<le> rank (waitFunction (group s'))"
proof (induction evs arbitrary: s)
  case Nil
  then show ?case by simp
next
  case (Cons e evs)
  from Cons.prems obtain s1 where s1: "step e s = Some s1" and r: "run evs s1 = Some s'"
    by (auto split: option.splits)
  from step_rank_mono [OF s1] Cons.IH [OF r] show ?case by simp
qed

text \<open>An event of \<^verbatim>\<open>wait\<close> that starts from program point \<open>n\<close>.\<close>

lemma step_needs_rank:
  "step e s = Some s' \<Longrightarrow>
     (e = WaitEnter \<longrightarrow> rank (waitFunction (group s)) = 0) \<and>
     (e = SelectDone \<longrightarrow> rank (waitFunction (group s)) = 1) \<and>
     (e = SelectCh \<longrightarrow> rank (waitFunction (group s)) = 1) \<and>
     (e = ErroredParent \<longrightarrow> rank (waitFunction (group s)) = 2) \<and>
     (e = ReturnCause \<longrightarrow> rank (waitFunction (group s)) = 3)"
  by (cases e) (auto split: if_splits)

lemma step_raises_rank:
  "step e s = Some s' \<Longrightarrow> e \<in> {WaitEnter, SelectDone, SelectCh, ErroredParent, ReturnCause} \<Longrightarrow>
     rank (waitFunction (group s)) < rank (waitFunction (group s'))"
  using step_waitFunction_cases [of e s s'] by (auto split: if_splits)

lemma run_event_rank:
  "run evs s = Some s' \<Longrightarrow> e \<in> set evs \<Longrightarrow>
     (e = WaitEnter \<longrightarrow> rank (waitFunction (group s)) = 0) \<and>
     (e = SelectDone \<longrightarrow> rank (waitFunction (group s)) \<le> 1) \<and>
     (e = SelectCh \<longrightarrow> rank (waitFunction (group s)) \<le> 1) \<and>
     (e = ErroredParent \<longrightarrow> rank (waitFunction (group s)) \<le> 2) \<and>
     (e = ReturnCause \<longrightarrow> rank (waitFunction (group s)) \<le> 3)"
proof (induction evs arbitrary: s)
  case Nil
  then show ?case by simp
next
  case (Cons x evs)
  from Cons.prems obtain s1 where s1: "step x s = Some s1" and r: "run evs s1 = Some s'"
    by (auto split: option.splits)
  show ?case
  proof (cases "e = x")
    case True
    with step_needs_rank [OF s1] show ?thesis by auto
  next
    case False
    with Cons.prems have "e \<in> set evs" by simp
    from Cons.IH [OF r this] step_rank_mono [OF s1] show ?thesis by auto
  qed
qed

lemma run_count_le_1:
  "run evs s = Some s' \<Longrightarrow> e \<in> {WaitEnter, SelectDone, SelectCh, ErroredParent, ReturnCause} \<Longrightarrow>
     count_list evs e \<le> 1"
proof (induction evs arbitrary: s)
  case Nil
  then show ?case by simp
next
  case (Cons x evs)
  from Cons.prems obtain s1 where s1: "step x s = Some s1" and r: "run evs s1 = Some s'"
    by (auto split: option.splits)
  show ?case
  proof (cases "x = e")
    case True
    have "e \<notin> set evs"
    proof
      assume "e \<in> set evs"
      from run_event_rank [OF r this] step_raises_rank [OF s1] step_needs_rank [OF s1] True Cons.prems(2)
      show False by auto
    qed
    then have "count_list evs e = 0" by (simp add: count_list_0_iff)
    with True show ?thesis by simp
  next
    case False
    with Cons.IH [OF r Cons.prems(2)] show ?thesis by simp
  qed
qed

lemma run_select_once:
  "run evs s = Some s' \<Longrightarrow> count_list evs SelectDone + count_list evs SelectCh \<le> 1"
proof (induction evs arbitrary: s)
  case Nil
  then show ?case by simp
next
  case (Cons x evs)
  from Cons.prems obtain s1 where s1: "step x s = Some s1" and r: "run evs s1 = Some s'"
    by (auto split: option.splits)
  show ?case
  proof (cases "x = SelectDone \<or> x = SelectCh")
    case True
    have a: "SelectDone \<notin> set evs"
    proof
      assume "SelectDone \<in> set evs"
      from run_event_rank [OF r this] step_raises_rank [OF s1] step_needs_rank [OF s1] True
      show False by auto
    qed
    have b: "SelectCh \<notin> set evs"
    proof
      assume "SelectCh \<in> set evs"
      from run_event_rank [OF r this] step_raises_rank [OF s1] step_needs_rank [OF s1] True
      show False by auto
    qed
    from a b have "count_list evs SelectDone = 0" "count_list evs SelectCh = 0"
      by (simp_all add: count_list_0_iff)
    with True show ?thesis by auto
  next
    case False
    with Cons.IH [OF r] show ?thesis by simp
  qed
qed

text \<open>A caller can only leave \<^verbatim>\<open>Wait\<close> after \<^verbatim>\<open>wait\<close> was entered and has returned.\<close>

lemma run_return_needs:
  "run evs s = Some s' \<Longrightarrow> WaitReturn r \<in> set evs \<Longrightarrow>
     (rank (waitFunction (group s)) \<le> 0 \<longrightarrow> WaitEnter \<in> set evs) \<and>
     (rank (waitFunction (group s)) \<le> 3 \<longrightarrow> ReturnCause \<in> set evs)"
proof (induction evs arbitrary: s)
  case Nil
  then show ?case by simp
next
  case (Cons x evs)
  from Cons.prems obtain s1 where s1: "step x s = Some s1" and r: "run evs s1 = Some s'"
    by (auto split: option.splits)
  show ?case
  proof (cases "x = WaitReturn r")
    case True
    with s1 have "waitFunction (group s) = Valid r" by (auto split: if_splits)
    then show ?thesis by simp
  next
    case False
    with Cons.prems have "WaitReturn r \<in> set evs" by simp
    from Cons.IH [OF r this] step_waitFunction_cases [OF s1] show ?thesis by auto
  qed
qed

lemma Cause_Done: "Cause c = Some k \<Longrightarrow> Done c"
  by (cases c) simp_all

lemma Done_Cause: "Done c \<Longrightarrow> \<exists>k. Cause c = Some k"
  by (cases c) simp_all

lemma run_append:
  "run (xs @ ys) s = (case run xs s of None \<Rightarrow> None | Some s' \<Rightarrow> run ys s')"
  by (induction xs arbitrary: s) (auto split: option.splits)

text \<open>The wait group counter and list updates.\<close>

lemma outstanding_update:
  "i < length rs \<Longrightarrow>
     int (outstanding (rs[i := x])) =
       int (outstanding rs) - (if live (rs ! i) then 1 else 0) + (if live x then 1 else 0)"
proof (induction rs arbitrary: i)
  case Nil
  then show ?case by simp
next
  case (Cons r rs)
  show ?case
  proof (cases i)
    case 0
    then show ?thesis by (simp add: outstanding_def)
  next
    case (Suc j)
    with Cons.prems have "j < length rs" by simp
    from Cons.IH [OF this] Suc show ?thesis
      by (cases "live r") (simp_all add: outstanding_def split: if_splits)
  qed
qed

lemma outstanding_append: "outstanding (rs @ [x]) = outstanding rs + (if live x then 1 else 0)"
  by (simp add: outstanding_def)

lemma outstanding_0: "outstanding rs = 0 \<Longrightarrow> x \<in> set rs \<Longrightarrow> x = Exited"
proof -
  assume a: "outstanding rs = 0" and b: "x \<in> set rs"
  from a have "filter live rs = []" by (simp add: outstanding_def)
  with b have "\<not> live x" by (simp add: filter_empty_conv)
  then show ?thesis by (cases x) simp_all
qed

lemma coherent_start: "coherent (start (NewWithContext p))"
  by (cases p) (simp_all add: coherent_def start_def NewWithContext_def outstanding_def)

lemma errored_fields:
  "wg (errored e g) = wg g" "ctxParent (errored e g) = ctxParent g"
  "errOnce (errored e g) \<longrightarrow> Done (ctx (errored e g)) \<or> errOnce g"
  "Done (ctx g) \<longrightarrow> Done (ctx (errored e g))"
  by (simp_all add: errored_def cancelCause_def Done_cancel)

lemma errored_coherent_aux:
  "(errOnce g \<longrightarrow> Done (ctx g)) \<Longrightarrow> errOnce (errored e g) \<longrightarrow> Done (ctx (errored e g))"
  by (simp add: errored_def cancelCause_def Done_cancel)

lemma report_fields:
  "wg (report r g) = wg g" "ctxParent (report r g) = ctxParent g"
  "Done (ctx g) \<longrightarrow> Done (ctx (report r g))"
  "(errOnce g \<longrightarrow> Done (ctx g)) \<Longrightarrow> errOnce (report r g) \<longrightarrow> Done (ctx (report r g))"
  by (simp_all add: report_def errored_fields errored_coherent_aux)

lemma propagate_keeps_Done: "Done c \<Longrightarrow> Done (propagate p c)"
  by (cases p) (simp_all add: Done_cancel)

lemma step_TaskReturn_form:
  "step (TaskReturn i) s = Some s' \<Longrightarrow>
     \<exists>r. i < length (routines s) \<and> live (routines s ! i)
       \<and> s' = s\<lparr>group := report r (group s), routines := (routines s)[i := Deferred]\<rparr>"
  by (auto split: if_splits routine.splits)

lemma step_TaskDone_form:
  "step (TaskDone i) s = Some s' \<Longrightarrow>
     i < length (routines s) \<and> routines s ! i = Deferred
       \<and> s' = release
             (s\<lparr>group := done_group (group s), routines := (routines s)[i := Exited]\<rparr>)"
  by (auto split: if_splits routine.splits)


lemma coherent_Go: "coherent s \<Longrightarrow> coherent (Go t s)"
  by (simp add: coherent_def Go_def outstanding_append)

lemma coherent_Co: "coherent s \<Longrightarrow> coherent (Co t s)"
  by (simp add: coherent_def Co_def outstanding_append)

lemma coherent_errored: "coherent s \<Longrightarrow> coherent (s\<lparr>group := errored e (group s)\<rparr>)"
  using errored_coherent_aux [of "group s" e]
  by (simp add: coherent_def errored_fields errored_waitFunction)

lemma coherent_report: "coherent s \<Longrightarrow> coherent (s\<lparr>group := report r (group s)\<rparr>)"
  by (simp add: report_def coherent_errored)

lemma coherent_pending: "coherent (s\<lparr>pending := n\<rparr>) = coherent s"
  by (simp add: coherent_def)

lemma coherent_ParentCancel:
  "coherent s \<Longrightarrow>
   coherent (s\<lparr>group := (group s)\<lparr>ctxParent := p, ctx := propagate p (ctx (group s))\<rparr>\<rparr>) =
     (Done p \<longrightarrow> Done (propagate p (ctx (group s))))"
  using propagate_keeps_Done [of "ctx (group s)" p]
  by (auto simp add: coherent_def)

lemma Done_propagate: "Done p \<Longrightarrow> Done (propagate p c)"
  by (cases p) (simp_all add: Done_cancel)

lemma coherent_Deferred:
  "coherent s \<Longrightarrow> i < length (routines s) \<Longrightarrow> live (routines s ! i) \<Longrightarrow>
   coherent (s\<lparr>routines := (routines s)[i := Deferred]\<rparr>)"
  using outstanding_update [of i "routines s" Deferred]
  by (simp add: coherent_def)

lemma coherent_Exited:
  "coherent s \<Longrightarrow> i < length (routines s) \<Longrightarrow> live (routines s ! i) \<Longrightarrow>
   coherent (release
     (s\<lparr>group := done_group (group s), routines := (routines s)[i := Exited]\<rparr>))"
  using outstanding_update [of i "routines s" Exited]
  by (auto simp add: coherent_def done_group_def release_def)

lemma step_coherent: "step e s = Some s' \<Longrightarrow> coherent s \<Longrightarrow> coherent s'"
proof (cases e)
  case (CallGo t)
  assume "step e s = Some s'" "coherent s"
  with CallGo show ?thesis by (auto simp: coherent_Go)
next
  case (CallCo t)
  assume "step e s = Some s'" "coherent s"
  with CallCo show ?thesis by (auto simp: coherent_Co)
next
  case CallCancel
  assume "step e s = Some s'" "coherent s"
  with CallCancel show ?thesis by (auto simp: Cancel_def coherent_errored)
next
  case CallWait
  assume "step e s = Some s'" "coherent s"
  with CallWait show ?thesis by (auto simp: coherent_pending)
next
  case (WaitReturn r)
  assume "step e s = Some s'" "coherent s"
  with WaitReturn show ?thesis by (auto simp: coherent_pending split: if_splits)
next
  case (ParentCancel x k)
  assume a: "step e s = Some s'" "coherent s"
  with ParentCancel have
    "s' = s\<lparr>group := (group s)\<lparr>ctxParent := cancel x k Active,
                                ctx := propagate (cancel x k Active) (ctx (group s))\<rparr>\<rparr>"
    by (auto simp: Let_def split: if_splits)
  with a(2) show ?thesis
    by (simp only: coherent_ParentCancel) (simp add: Done_propagate Done_cancel)
next
  case (TaskReturn i)
  assume a: "step e s = Some s'" "coherent s"
  from a(1) TaskReturn obtain r where f: "i < length (routines s)" "live (routines s ! i)"
      "s' = s\<lparr>group := report r (group s), routines := (routines s)[i := Deferred]\<rparr>"
    using step_TaskReturn_form by blast
  from coherent_report [OF a(2), of r] have "coherent (s\<lparr>group := report r (group s)\<rparr>)" .
  from coherent_Deferred [OF this, of i] f(1,2) show ?thesis
    unfolding f(3) by simp
next
  case (TaskDone i)
  assume a: "step e s = Some s'" "coherent s"
  from a(1) TaskDone have f: "i < length (routines s)" "routines s ! i = Deferred"
      "s' = release
         (s\<lparr>group := done_group (group s), routines := (routines s)[i := Exited]\<rparr>)"
    using step_TaskDone_form by blast+
  from coherent_Exited [OF a(2) f(1)] f(2) show ?thesis
    unfolding f(3) by simp
next
  case WaitEnter
  assume a: "step e s = Some s'" "coherent s"
  with WaitEnter have "s' = s\<lparr>group := (group s)\<lparr>waitFunction := AtSelect\<rparr>, watcher := WgWait\<rparr>"
    by (simp split: if_splits)
  with a(2) show ?thesis by (simp add: coherent_def)
next
  case WatcherWake
  assume a: "step e s = Some s'" "coherent s"
  with WatcherWake have "s' = s\<lparr>watcher := ChSend\<rparr>"
      "watcher s = WgWait \<or> watcher s = Released"
    by (simp_all split: if_splits)
  with a(2) show ?thesis by (auto simp add: coherent_def)
next
  case WatcherBlock
  assume a: "step e s = Some s'" "coherent s"
  with WatcherBlock have "s' = s\<lparr>watcher := Blocked\<rparr>" "watcher s = WgWait"
      "wg (group s) \<noteq> 0"
    by (simp_all split: if_splits)
  with a(2) show ?thesis by (simp add: coherent_def)
next
  case WatcherPanic
  assume a: "step e s = Some s'" "coherent s"
  with WatcherPanic have "s' = s\<lparr>watcher := Panicked\<rparr>" "watcher s = Released"
    by (simp_all split: if_splits)
  with a(2) show ?thesis by (simp add: coherent_def)
next
  case SelectDone
  assume a: "step e s = Some s'" "coherent s"
  with SelectDone have "s' = s\<lparr>group := (group s)\<lparr>waitFunction := CtxDone\<rparr>\<rparr>"
     "waitFunction (group s) = AtSelect" "Done (ctx (group s))"
    by (simp_all split: if_splits)
  with a(2) show ?thesis by (simp add: coherent_def)
next
  case SelectCh
  assume a: "step e s = Some s'" "coherent s"
  with SelectCh have "s' = s\<lparr>group := (group s)\<lparr>waitFunction := AtReturn\<rparr>, watcher := Delivered\<rparr>"
     "waitFunction (group s) = AtSelect"
    by (simp_all split: if_splits)
  with a(2) show ?thesis by (simp add: coherent_def)
next
  case ErroredParent
  assume a: "step e s = Some s'" "coherent s"
  with ErroredParent have f:
     "s' = s\<lparr>group := (errored (Some ErrorParentContextCanceled) (group s))\<lparr>waitFunction := AtReturn\<rparr>\<rparr>"
     "waitFunction (group s) = CtxDone"
    by (simp_all split: if_splits)
  from coherent_errored [OF a(2), of "Some ErrorParentContextCanceled"] f(2) show ?thesis
    unfolding f(1) by (simp add: coherent_def errored_waitFunction)
next
  case ReturnCause
  assume a: "step e s = Some s'" "coherent s"
  with ReturnCause have
     "s' = s\<lparr>group := (group s)\<lparr>waitFunction := Valid (Cause (ctx (group s)))\<rparr>\<rparr>"
     "waitFunction (group s) = AtReturn"
    by (simp_all split: if_splits)
  with a(2) show ?thesis by (simp add: coherent_def)
qed

lemma run_coherent: "run evs s = Some s' \<Longrightarrow> coherent s \<Longrightarrow> coherent s'"
proof (induction evs arbitrary: s)
  case Nil
  then show ?case by simp
next
  case (Cons e evs)
  from Cons.prems obtain s1 where s1: "step e s = Some s1" and r: "run evs s1 = Some s'"
    by (auto split: option.splits)
  from Cons.IH [OF r step_coherent [OF s1 Cons.prems(2)]] show ?case .
qed

lemma reachable_coherent: "run evs (start (NewWithContext p)) = Some s \<Longrightarrow> coherent s"
  by (rule run_coherent [OF _ coherent_start])

text \<open>Once a cause is latched, every later return of \<^verbatim>\<open>Wait\<close> that was not cached before gives it.\<close>

lemma run_returns_latched:
  "run evs s = Some s' \<Longrightarrow> Cause (ctx (group s)) = Some c \<Longrightarrow>
   \<not> is_valid (waitFunction (group s)) \<Longrightarrow> WaitReturn r \<in> set evs \<Longrightarrow> r = Some c"
proof (induction evs arbitrary: s)
  case Nil
  then show ?case by simp
next
  case (Cons e evs)
  from Cons.prems(1) obtain s1 where s1: "step e s = Some s1" and r: "run evs s1 = Some s'"
    by (auto split: option.splits)
  have d: "Done (ctx (group s))" by (rule Cause_Done [OF Cons.prems(2)])
  have c1: "Cause (ctx (group s1)) = Some c"
    using step_ctx_Done [OF s1 d] Cons.prems(2) by simp
  have ne: "e \<noteq> WaitReturn r"
  proof
    assume "e = WaitReturn r"
    with s1 have "waitFunction (group s) = Valid r" by (auto split: if_splits)
    with Cons.prems(3) show False by simp
  qed
  with Cons.prems(4) have m: "WaitReturn r \<in> set evs" by simp
  show ?case
  proof (cases "is_valid (waitFunction (group s1))")
    case False
    from Cons.IH [OF r c1 False m] show ?thesis .
  next
    case True
    with step_waitFunction_cases [OF s1] Cons.prems(3)
    have "waitFunction (group s1) = Valid (Cause (ctx (group s)))" by auto
    with Cons.prems(2) have "waitFunction (group s1) = Valid (Some c)" by simp
    from run_Valid_returns [OF r this m] show ?thesis .
  qed
qed

text \<open>On a canceled context \<^verbatim>\<open>Wait\<close> can return at once, whatever the tasks do.\<close>

lemma Wait_alone_canceled:
  assumes "Cause (ctx (group s)) = Some c" and "\<not> is_valid (waitFunction (group s))"
  shows "\<exists>s'. run (Wait_alone s (Some c)) s = Some s' \<and> routines s' = routines s
            \<and> wg (group s') = wg (group s) \<and> ctx (group s') = ctx (group s)"
proof -
  have d: "Done (ctx (group s))" by (rule Cause_Done [OF assms(1)])
  show ?thesis
  proof (cases "waitFunction (group s)")
    case Idle
    with d assms(1) show ?thesis
      by (simp add: Wait_alone_def wait_path_def errored_ctx_Done errored_fields)
  next
    case AtSelect
    with d assms(1) show ?thesis
      by (simp add: Wait_alone_def wait_path_def errored_ctx_Done errored_fields)
  next
    case CtxDone
    with d assms(1) show ?thesis
      by (simp add: Wait_alone_def wait_path_def errored_ctx_Done errored_fields)
  next
    case AtReturn
    with d assms(1) show ?thesis
      by (simp add: Wait_alone_def wait_path_def)
  next
    case (Valid r)
    with assms(2) show ?thesis by simp
  qed
qed

text \<open>On a live context with a drained counter \<^verbatim>\<open>Wait\<close> can return \<^verbatim>\<open>nil\<close> at once.\<close>

lemma Wait_alone_drained:
  assumes "coherent s" and "\<not> Done (ctx (group s))" and "wg (group s) = 0"
      and "is_valid (waitFunction (group s)) \<longrightarrow> waitFunction (group s) = Valid None"
      and "watcher s \<noteq> Panicked"
  shows "\<exists>s'. run (Wait_alone s None) s = Some s' \<and> routines s' = routines s
            \<and> wg (group s') = 0 \<and> ctx (group s') = ctx (group s)"
proof -
  from assms(2) have c: "Cause (ctx (group s)) = None" by (cases "ctx (group s)") simp_all
  show ?thesis
  proof (cases "waitFunction (group s)")
    case Idle
    with assms c show ?thesis
      by (simp add: Wait_alone_def wait_path_def coherent_def)
  next
    case AtSelect
    with assms(1,3,5) have "watcher s = WgWait \<or> watcher s = Released \<or> watcher s = ChSend"
      by (cases "watcher s") (auto simp add: coherent_def)
    with AtSelect assms c show ?thesis
      by (auto simp: Wait_alone_def wait_path_def)
  next
    case CtxDone
    with assms show ?thesis by (simp add: coherent_def)
  next
    case AtReturn
    with assms c show ?thesis
      by (simp add: Wait_alone_def wait_path_def)
  next
    case (Valid r)
    with assms show ?thesis by (simp add: Wait_alone_def wait_path_def)
  qed
qed

text \<open>Runs in which every task succeeds and nothing cancels.\<close>

lemma not_Done_Cause: "\<not> Done c \<Longrightarrow> Cause c = None"
  by (cases c) simp_all

lemma quiet_start: "\<not> Done p \<Longrightarrow> quiet (start (NewWithContext p))"
  using coherent_start [of p]
  by (cases p) (simp_all add: quiet_def start_def NewWithContext_def)

lemma list_all_update: "list_all P xs \<Longrightarrow> P x \<Longrightarrow> list_all P (xs[i := x])"
  by (induction xs arbitrary: i) (auto split: nat.splits)

lemma list_all_nth: "list_all P xs \<Longrightarrow> i < length xs \<Longrightarrow> P (xs ! i)"
  by (simp add: list_all_length)

lemma outstanding_pos: "i < length rs \<Longrightarrow> live (rs ! i) \<Longrightarrow> 0 < outstanding rs"
proof -
  assume "i < length rs" "live (rs ! i)"
  then have "rs ! i \<in> set (filter live rs)" by simp
  then have "filter live rs \<noteq> []" by (metis empty_iff empty_set)
  then show ?thesis by (simp add: outstanding_def)
qed

lemma quiet_pending: "quiet (s\<lparr>pending := n\<rparr>) = quiet s"
  by (simp add: quiet_def coherent_def)

lemma step_quiet_wait:
  assumes "step e s = Some s'" and "quiet s"
      and "e \<in> {WaitEnter, WatcherWake, WatcherBlock, WatcherPanic, SelectDone, SelectCh,
                 ErroredParent, ReturnCause}"
  shows "quiet s'"
proof -
  have co: "coherent s'" using step_coherent [OF assms(1)] assms(2) by (simp add: quiet_def)
  from assms(2) have nd: "\<not> Done (ctx (group s))" by (simp add: quiet_def)
  from assms(3) consider "e = WaitEnter" | "e = WatcherWake" | "e = WatcherBlock"
    | "e = WatcherPanic" | "e = SelectDone" | "e = SelectCh"
    | "e = ErroredParent" | "e = ReturnCause" by auto
  then show ?thesis
  proof cases
    case 1
    with assms(1) have "s' = s\<lparr>group := (group s)\<lparr>waitFunction := AtSelect\<rparr>, watcher := WgWait\<rparr>"
      by (simp split: if_splits)
    with assms(2) co show ?thesis by (simp add: quiet_def)
  next
    case 2
    with assms(1) have "s' = s\<lparr>watcher := ChSend\<rparr>"
        "watcher s = WgWait \<or> watcher s = Released" "wg (group s) = 0"
      by (simp_all split: if_splits)
    with assms(2) co show ?thesis by (auto simp add: quiet_def)
  next
    case 3
    with assms(1) have "s' = s\<lparr>watcher := Blocked\<rparr>" "watcher s = WgWait"
      by (simp_all split: if_splits)
    with assms(2) co show ?thesis by (auto simp add: quiet_def)
  next
    case 4
    with assms(1) have "watcher s = Released" "wg (group s) \<noteq> 0"
      by (simp_all split: if_splits)
    with assms(2) show ?thesis by (simp add: quiet_def)
  next
    case 5
    with assms(1) have "Done (ctx (group s))" by (simp split: if_splits)
    with nd show ?thesis by simp
  next
    case 6
    with assms(1) have
      "s' = s\<lparr>group := (group s)\<lparr>waitFunction := AtReturn\<rparr>, watcher := Delivered\<rparr>"
      "watcher s = ChSend"
      by (simp_all split: if_splits)
    with assms(2) co show ?thesis by (simp add: quiet_def)
  next
    case 7
    with assms(1) have "waitFunction (group s) = CtxDone" by (simp split: if_splits)
    with assms(2) have "Done (ctx (group s))" by (simp add: quiet_def coherent_def)
    with nd show ?thesis by simp
  next
    case 8
    with assms(1) have
      "s' = s\<lparr>group := (group s)\<lparr>waitFunction := Valid (Cause (ctx (group s)))\<rparr>\<rparr>"
      "waitFunction (group s) = AtReturn"
      by (simp_all split: if_splits)
    with assms(2) co not_Done_Cause [OF nd] show ?thesis by (simp add: quiet_def)
  qed
qed

lemma step_quiet_task:
  assumes "step e s = Some s'" and "quiet s" and "e = TaskReturn i \<or> e = TaskDone i"
  shows "quiet s'"
proof -
  have co: "coherent s'" using step_coherent [OF assms(1)] assms(2) by (simp add: quiet_def)
  from assms(2) have la: "list_all succeeds (routines s)" by (simp add: quiet_def)
  from assms(3) show ?thesis
  proof
    assume e: "e = TaskReturn i"
    from assms(1) e have i: "i < length (routines s)" by (simp split: if_splits)
    from list_all_nth [OF la i] have su: "succeeds (routines s ! i)" .
    from assms(1) e i su have "s' = s\<lparr>routines := (routines s)[i := Deferred]\<rparr>"
      by (auto simp: report_def split: if_splits routine.splits)
    with assms(2) co list_all_update [OF la, of Deferred i] show ?thesis
      by (simp add: quiet_def)
  next
    assume e: "e = TaskDone i"
    from assms(1) e have f: "i < length (routines s)" "routines s ! i = Deferred"
      "s' = release
         (s\<lparr>group := done_group (group s), routines := (routines s)[i := Exited]\<rparr>)"
      using step_TaskDone_form by blast+
    from outstanding_pos [OF f(1)] f(2) have "0 < outstanding (routines s)" by simp
    with assms(2) have "wg (group s) \<noteq> 0" by (simp add: quiet_def coherent_def)
    with assms(2) have w: "watcher s \<noteq> Released" "watcher s \<noteq> ChSend"
        "watcher s \<noteq> Delivered"
      by (auto simp add: quiet_def)
    from assms(2) w list_all_update [OF la, of Exited i]
    have "quiet (release
         (s\<lparr>group := done_group (group s), routines := (routines s)[i := Exited]\<rparr>))
       = coherent (release
         (s\<lparr>group := done_group (group s), routines := (routines s)[i := Exited]\<rparr>))"
      by (simp add: quiet_def release_def done_group_def)
    with co show ?thesis unfolding f(3) by simp
  qed
qed

lemma event_kinds:
  "benign e \<Longrightarrow> \<not> scheduling e \<Longrightarrow>
     e = CallWait \<or> (\<exists>r. e = WaitReturn r) \<or> (\<exists>i. e = TaskReturn i \<or> e = TaskDone i)
   \<or> e \<in> {WaitEnter, WatcherWake, WatcherBlock, WatcherPanic, SelectDone, SelectCh,
            ErroredParent, ReturnCause}"
  by (cases e) simp_all

lemma step_quiet:
  assumes "step e s = Some s'" and "quiet s" and "benign e" and "\<not> scheduling e"
  shows "quiet s'"
proof -
  from event_kinds [OF assms(3,4)] consider "e = CallWait" | r where "e = WaitReturn r"
    | i where "e = TaskReturn i \<or> e = TaskDone i"
    | "e \<in> {WaitEnter, WatcherWake, WatcherBlock, WatcherPanic, SelectDone, SelectCh,
             ErroredParent, ReturnCause}" by blast
  then show ?thesis
  proof cases
    case 1
    with assms(1,2) show ?thesis by (auto simp: quiet_pending)
  next
    case 2
    with assms(1,2) show ?thesis by (auto simp: quiet_pending split: if_splits)
  next
    case 3
    from step_quiet_task [OF assms(1,2) 3] show ?thesis .
  next
    case 4
    from step_quiet_wait [OF assms(1,2) 4] show ?thesis .
  qed
qed

lemma run_quiet:
  "run evs s = Some s' \<Longrightarrow> quiet s \<Longrightarrow> \<forall>e\<in>set evs. benign e \<and> \<not> scheduling e \<Longrightarrow> quiet s'"
proof (induction evs arbitrary: s)
  case Nil
  then show ?case by simp
next
  case (Cons e evs)
  from Cons.prems(1) obtain s1 where s1: "step e s = Some s1" and r: "run evs s1 = Some s'"
    by (auto split: option.splits)
  from Cons.prems(3) have "benign e" "\<not> scheduling e" by simp_all
  from step_quiet [OF s1 Cons.prems(2) this] have "quiet s1" .
  from Cons.IH [OF r this] Cons.prems(3) show ?case by simp
qed

lemma run_quiet_returns:
  "run evs s = Some s' \<Longrightarrow> quiet s \<Longrightarrow> \<forall>e\<in>set evs. benign e \<and> \<not> scheduling e \<Longrightarrow>
   WaitReturn r \<in> set evs \<Longrightarrow> r = None"
proof (induction evs arbitrary: s)
  case Nil
  then show ?case by simp
next
  case (Cons e evs)
  from Cons.prems(1) obtain s1 where s1: "step e s = Some s1" and r: "run evs s1 = Some s'"
    by (auto split: option.splits)
  from Cons.prems(3) have "benign e" "\<not> scheduling e" by simp_all
  from step_quiet [OF s1 Cons.prems(2) this] have q1: "quiet s1" .
  show ?case
  proof (cases "e = WaitReturn r")
    case True
    with s1 have "waitFunction (group s) = Valid r" by (simp split: if_splits)
    with Cons.prems(2) show ?thesis by (simp add: quiet_def)
  next
    case False
    with Cons.prems(4) have "WaitReturn r \<in> set evs" by simp
    from Cons.IH [OF r q1 _ this] Cons.prems(3) show ?thesis by simp
  qed
qed

text \<open>Scheduling before any caller has entered \<^verbatim>\<open>Wait\<close>.\<close>

lemma step_quiet_sched:
  assumes "step e s = Some s'" and "quiet s" and "benign e" and "e \<noteq> CallWait"
      and "pending s = 0" and "waitFunction (group s) = Idle"
  shows "quiet s' \<and> pending s' = 0 \<and> waitFunction (group s') = Idle"
proof (cases "scheduling e")
  case False
  from step_quiet [OF assms(1,2,3) False] have q: "quiet s'" .
  from event_kinds [OF assms(3) False] assms(4) consider r where "e = WaitReturn r"
    | i where "e = TaskReturn i \<or> e = TaskDone i"
    | "e \<in> {WaitEnter, WatcherWake, WatcherBlock, WatcherPanic, SelectDone, SelectCh,
             ErroredParent, ReturnCause}" by blast
  then have "pending s' = 0 \<and> waitFunction (group s') = Idle"
  proof cases
    case 1
    with assms(1,5) show ?thesis by simp
  next
    case 2
    with assms(1,5,6) show ?thesis
      by (auto simp: report_waitFunction done_group_def release_def
            split: if_splits routine.splits)
  next
    case 3
    with assms(1,5,6) show ?thesis by (auto split: if_splits)
  qed
  with q show ?thesis by simp
next
  case True
  with assms(3) obtain t where e: "e = CallGo t" "t () = None" by (cases e) simp_all
  from assms(2,6) have w: "watcher s = NotSpawned" by (simp add: quiet_def coherent_def)
  from e assms(1) have s': "s' = Go t s" by simp
  have co: "coherent s'" using step_coherent [OF assms(1)] assms(2) by (simp add: quiet_def)
  from assms(2,5,6) w e(2) co show ?thesis
    unfolding s' quiet_def by (simp add: Go_def)
qed

lemma run_quiet_sched:
  "run evs s = Some s' \<Longrightarrow> quiet s \<Longrightarrow> \<forall>e\<in>set evs. benign e \<and> e \<noteq> CallWait \<Longrightarrow>
   pending s = 0 \<Longrightarrow> waitFunction (group s) = Idle \<Longrightarrow>
   quiet s' \<and> pending s' = 0 \<and> waitFunction (group s') = Idle"
proof (induction evs arbitrary: s)
  case Nil
  then show ?case by simp
next
  case (Cons e evs)
  from Cons.prems(1) obtain s1 where s1: "step e s = Some s1" and r: "run evs s1 = Some s'"
    by (auto split: option.splits)
  from Cons.prems(3) have "benign e" "e \<noteq> CallWait" by simp_all
  from step_quiet_sched [OF s1 Cons.prems(2) this Cons.prems(4,5)]
  have "quiet s1" "pending s1 = 0" "waitFunction (group s1) = Idle" by simp_all
  from Cons.IH [OF r this(1) _ this(2,3)] Cons.prems(3) show ?case by simp
qed

lemma step_length_routines:
  "step e s = Some s' \<Longrightarrow>
     length (routines s') = length (routines s) + (if scheduling e then 1 else 0)"
  by (cases e) (auto simp: Go_def Co_def Let_def release_def split: if_splits routine.splits)

lemma run_length_routines:
  "run evs s = Some s' \<Longrightarrow>
     length (routines s') = length (routines s) + length (filter scheduling evs)"
proof (induction evs arbitrary: s)
  case Nil
  then show ?case by simp
next
  case (Cons e evs)
  from Cons.prems(1) obtain s1 where s1: "step e s = Some s1" and r: "run evs s1 = Some s'"
    by (auto split: option.splits)
  from Cons.IH [OF r] step_length_routines [OF s1] show ?case by simp
qed

text \<open>Letting the task goroutines run to their end.\<close>

lemma finish_events: "e \<in> set (finish i rs) \<Longrightarrow> benign e \<and> \<not> scheduling e"
  by (induction i rs rule: finish.induct) auto

lemma release_routines: "routines (release s) = routines s"
  by (simp add: release_def)

lemma nth_mid: "length pre = i \<Longrightarrow> (pre @ x # rs) ! i = x"
  by auto

lemma upd_mid: "length pre = i \<Longrightarrow> (pre @ x # rs)[i := y] = pre @ y # rs"
  by auto

lemma run_finish:
  "routines s = pre @ rs \<Longrightarrow> length pre = i \<Longrightarrow>
     \<exists>s'. run (finish i rs) s = Some s' \<and> routines s' = pre @ replicate (length rs) Exited"
proof (induction i rs arbitrary: pre s rule: finish.induct)
  case (1 i)
  then show ?case by simp
next
  case (2 i t rs)
  define s1 where "s1 = s\<lparr>group := report (t ()) (group s), routines := (routines s)[i := Deferred]\<rparr>"
  define s2 where "s2 = release
     (s1\<lparr>group := done_group (group s1), routines := (routines s1)[i := Exited]\<rparr>)"
  from 2(2,3) have a: "step (TaskReturn i) s = Some s1"
    by (simp add: s1_def nth_mid)
  from 2(2,3) have r1: "routines s1 = pre @ Deferred # rs"
    by (simp add: s1_def upd_mid)
  with 2(3) have b: "step (TaskDone i) s1 = Some s2"
    by (simp add: s2_def nth_mid)
  from r1 2(3) have r2: "routines s2 = (pre @ [Exited]) @ rs"
    by (simp add: s2_def release_routines upd_mid)
  from 2(3) have "length (pre @ [Exited]) = Suc i" by simp
  from 2(1) [OF r2 this] obtain s' where
    "run (finish (Suc i) rs) s2 = Some s'"
    "routines s' = (pre @ [Exited]) @ replicate (length rs) Exited" by blast
  with a b show ?case by (simp add: replicate_app_Cons_same)
next
  case (3 i t rs)
  define s1 where "s1 = s\<lparr>group := report (t (ctx (group s))) (group s),
                           routines := (routines s)[i := Deferred]\<rparr>"
  define s2 where "s2 = release
     (s1\<lparr>group := done_group (group s1), routines := (routines s1)[i := Exited]\<rparr>)"
  from 3(2,3) have a: "step (TaskReturn i) s = Some s1"
    by (simp add: s1_def nth_mid)
  from 3(2,3) have r1: "routines s1 = pre @ Deferred # rs"
    by (simp add: s1_def upd_mid)
  with 3(3) have b: "step (TaskDone i) s1 = Some s2"
    by (simp add: s2_def nth_mid)
  from r1 3(3) have r2: "routines s2 = (pre @ [Exited]) @ rs"
    by (simp add: s2_def release_routines upd_mid)
  from 3(3) have "length (pre @ [Exited]) = Suc i" by simp
  from 3(1) [OF r2 this] obtain s' where
    "run (finish (Suc i) rs) s2 = Some s'"
    "routines s' = (pre @ [Exited]) @ replicate (length rs) Exited" by blast
  with a b show ?case by (simp add: replicate_app_Cons_same)
next
  case (4 i rs)
  define s2 where "s2 = release
     (s\<lparr>group := done_group (group s), routines := (routines s)[i := Exited]\<rparr>)"
  from 4(2,3) have b: "step (TaskDone i) s = Some s2"
    by (simp add: s2_def nth_mid)
  from 4(2,3) have r2: "routines s2 = (pre @ [Exited]) @ rs"
    by (simp add: s2_def release_routines upd_mid)
  from 4(3) have "length (pre @ [Exited]) = Suc i" by simp
  from 4(1) [OF r2 this] obtain s' where
    "run (finish (Suc i) rs) s2 = Some s'"
    "routines s' = (pre @ [Exited]) @ replicate (length rs) Exited" by blast
  with b show ?case by (simp add: replicate_app_Cons_same)
next
  case (5 i rs)
  from 5(2) have r2: "routines s = (pre @ [Exited]) @ rs" by simp
  from 5(3) have "length (pre @ [Exited]) = Suc i" by simp
  from 5(1) [OF r2 this] obtain s' where
    "run (finish (Suc i) rs) s = Some s'"
    "routines s' = (pre @ [Exited]) @ replicate (length rs) Exited" by blast
  then show ?case by (simp add: replicate_app_Cons_same)
qed

lemma Cancel_live:
  "coherent s \<Longrightarrow> \<not> Done (ctx (group s)) \<Longrightarrow>
     ctx (Cancel (group s)) = Ended Canceled ErrorGroupCanceled"
  by (cases "ctx (group s)") (simp_all add: coherent_def Cancel_def errored_def cancelCause_def)

lemma report_live:
  "coherent s \<Longrightarrow> \<not> Done (ctx (group s)) \<Longrightarrow> ctx (report (Some e) (group s)) = Ended Canceled e"
  by (cases "ctx (group s)") (simp_all add: coherent_def report_def errored_def cancelCause_def)


lemma ParentCancel_live:
  assumes "step (ParentCancel e k) s = Some s1" and "\<not> Done (ctx (group s))"
  shows "ctx (group s1) = Ended e (case k of None \<Rightarrow> e | Some c \<Rightarrow> c)"
    and "waitFunction (group s1) = waitFunction (group s)"
proof -
  from assms(1) have p: "ctxParent (group s) = Active"
    and s1: "s1 = s\<lparr>group := (group s)\<lparr>ctxParent := cancel e k Active,
                ctx := propagate (cancel e k Active) (ctx (group s))\<rparr>\<rparr>"
    by (simp_all add: Let_def split: if_splits)
  from assms(2) show "ctx (group s1) = Ended e (case k of None \<Rightarrow> e | Some c \<Rightarrow> c)"
    unfolding s1 by (cases "ctx (group s)") simp_all
  show "waitFunction (group s1) = waitFunction (group s)"
    unfolding s1 by simp
qed

section \<open>Properties of the group\<close>

text \<open>
  C1. Any two calls of \<^verbatim>\<open>Wait\<close> on a group return the same value: in every schedule, from
  every state, two events \<open>WaitReturn r1\<close> and \<open>WaitReturn r2\<close> have \<open>r1 = r2\<close>. The race
  is evaluated once: \<^verbatim>\<open>wait\<close> is entered at most once, its \<^verbatim>\<open>select\<close> is decided at most once
  and it returns at most once, and exactly once in a schedule that starts before \<^verbatim>\<open>wait\<close> was
  entered and in which some caller leaves \<^verbatim>\<open>Wait\<close>. Once the result \<open>r\<close> is cached, a further
  call returns \<open>r\<close> at once (the schedule \<open>[CallWait, WaitReturn r]\<close> runs and leaves the
  state as it was), and no later schedule contains a step of \<^verbatim>\<open>wait\<close> or returns another value.
\<close>

theorem Wait_idempotent:
  assumes "run evs s = Some s'"
  shows "(WaitReturn r1 \<in> set evs \<longrightarrow> WaitReturn r2 \<in> set evs \<longrightarrow> r1 = r2)
       \<and> count_list evs WaitEnter \<le> 1
       \<and> count_list evs SelectDone + count_list evs SelectCh \<le> 1
       \<and> count_list evs ReturnCause \<le> 1
       \<and> (waitFunction (group s) = Idle \<longrightarrow> WaitReturn r1 \<in> set evs \<longrightarrow>
            count_list evs WaitEnter = 1 \<and> count_list evs ReturnCause = 1)
       \<and> (waitFunction (group s') = Valid r \<longrightarrow>
            run [CallWait, WaitReturn r] s' = Some s'
          \<and> (\<forall>evs' s'' r'. run evs' s' = Some s'' \<longrightarrow>
                {WaitEnter, SelectDone, SelectCh, ErroredParent, ReturnCause} \<inter> set evs' = {}
              \<and> (WaitReturn r' \<in> set evs' \<longrightarrow> r' = r)))"
proof -
  have a: "WaitReturn r1 \<in> set evs \<longrightarrow> WaitReturn r2 \<in> set evs \<longrightarrow> r1 = r2"
    using run_returns_agree [OF assms] by blast
  have b: "count_list evs WaitEnter \<le> 1" "count_list evs ReturnCause \<le> 1"
    using run_count_le_1 [OF assms] by simp_all
  have c: "count_list evs SelectDone + count_list evs SelectCh \<le> 1"
    by (rule run_select_once [OF assms])
  have d: "waitFunction (group s) = Idle \<longrightarrow> WaitReturn r1 \<in> set evs \<longrightarrow>
            count_list evs WaitEnter = 1 \<and> count_list evs ReturnCause = 1"
  proof (intro impI)
    assume i: "waitFunction (group s) = Idle" and m: "WaitReturn r1 \<in> set evs"
    from run_return_needs [OF assms m] i have "WaitEnter \<in> set evs" "ReturnCause \<in> set evs"
      by simp_all
    then have "count_list evs WaitEnter \<noteq> 0" "count_list evs ReturnCause \<noteq> 0"
      by (simp_all add: count_list_0_iff)
    with b show "count_list evs WaitEnter = 1 \<and> count_list evs ReturnCause = 1" by simp
  qed
  have e: "waitFunction (group s') = Valid r \<longrightarrow>
            run [CallWait, WaitReturn r] s' = Some s'
          \<and> (\<forall>evs' s'' r'. run evs' s' = Some s'' \<longrightarrow>
                {WaitEnter, SelectDone, SelectCh, ErroredParent, ReturnCause} \<inter> set evs' = {}
              \<and> (WaitReturn r' \<in> set evs' \<longrightarrow> r' = r))"
  proof (intro impI conjI allI)
    assume v: "waitFunction (group s') = Valid r"
    then show "run [CallWait, WaitReturn r] s' = Some s'" by simp
    fix evs' s'' r'
    assume r: "run evs' s' = Some s''"
    show "{WaitEnter, SelectDone, SelectCh, ErroredParent, ReturnCause} \<inter> set evs' = {}"
    proof (rule ccontr)
      assume "{WaitEnter, SelectDone, SelectCh, ErroredParent, ReturnCause} \<inter> set evs' \<noteq> {}"
      then obtain x where x: "x \<in> set evs'"
        "x \<in> {WaitEnter, SelectDone, SelectCh, ErroredParent, ReturnCause}" by blast
      from run_event_rank [OF r x(1)] x(2) v show False by auto
    qed
    show "WaitReturn r' \<in> set evs' \<Longrightarrow> r' = r"
      by (rule run_Valid_returns [OF r v])
  qed
  from a b c d e show ?thesis by blast
qed

theorem Wait_idempotent_witness:
  "run [CallWait, WaitEnter, WatcherWake, SelectCh, ReturnCause, WaitReturn None,
        CallWait, WaitReturn None] (start New)
     = Some \<lparr> group = \<lparr> wg = 0, errOnce = False, waitFunction = Valid None,
                         ctxParent = Background, ctx = Active \<rparr>,
              routines = [], watcher = Delivered, pending = 0 \<rparr>
   \<and> count_list [CallWait, WaitEnter, WatcherWake, SelectCh, ReturnCause, WaitReturn None,
        CallWait, WaitReturn None] WaitEnter = 1
   \<and> count_list [CallWait, WaitEnter, WatcherWake, SelectCh, ReturnCause, WaitReturn None,
        CallWait, WaitReturn None] ReturnCause = 1
   \<and> run [CallWait, WaitReturn None]
         \<lparr> group = \<lparr> wg = 0, errOnce = False, waitFunction = Valid None,
                     ctxParent = Background, ctx = Active \<rparr>,
           routines = [], watcher = Delivered, pending = 0 \<rparr>
     = Some \<lparr> group = \<lparr> wg = 0, errOnce = False, waitFunction = Valid None,
                         ctxParent = Background, ctx = Active \<rparr>,
              routines = [], watcher = Delivered, pending = 0 \<rparr>"
proof -
  have h: "run [CallWait, WaitEnter, WatcherWake, SelectCh, ReturnCause, WaitReturn None,
        CallWait, WaitReturn None] (start New)
     = Some \<lparr> group = \<lparr> wg = 0, errOnce = False, waitFunction = Valid None,
                         ctxParent = Background, ctx = Active \<rparr>,
              routines = [], watcher = Delivered, pending = 0 \<rparr>"
    by (simp add: start_def New_def NewWithContext_def)
  from Wait_idempotent [OF h, of None None None] h show ?thesis
    by (simp add: start_def New_def NewWithContext_def)
qed

text \<open>
  C2. At most one cause is ever latched. Once \<^verbatim>\<open>context.Cause(g.ctx)\<close> is a cause \<open>c\<close>, it is
  \<open>c\<close> after every schedule, whatever the schedule holds: calls of \<^verbatim>\<open>Cancel\<close>, tasks that
  return errors, the cancellation of the parent, the steps of \<^verbatim>\<open>wait\<close>. The context is
  not changed at all, and a further \<open>errored\<close> or \<open>Cancel\<close> leaves it as it is. The
  result that \<^verbatim>\<open>Wait\<close> has cached is kept in the same way.
\<close>

theorem first_cause_wins:
  assumes "run evs s = Some s'"
  shows "(Cause (ctx (group s)) = Some c \<longrightarrow>
            Cause (ctx (group s')) = Some c \<and> ctx (group s') = ctx (group s)
          \<and> ctx (errored e (group s')) = ctx (group s')
          \<and> ctx (Cancel (group s')) = ctx (group s'))
       \<and> (waitFunction (group s) = Valid r \<longrightarrow> waitFunction (group s') = Valid r)"
proof -
  have a: "Cause (ctx (group s)) = Some c \<longrightarrow>
            Cause (ctx (group s')) = Some c \<and> ctx (group s') = ctx (group s)
          \<and> ctx (errored e (group s')) = ctx (group s')
          \<and> ctx (Cancel (group s')) = ctx (group s')"
  proof
    assume c: "Cause (ctx (group s)) = Some c"
    have d: "Done (ctx (group s))" by (rule Cause_Done [OF c])
    have eq: "ctx (group s') = ctx (group s)" by (rule run_ctx_Done [OF assms d])
    with d have d': "Done (ctx (group s'))" by simp
    from eq c d' show "Cause (ctx (group s')) = Some c \<and> ctx (group s') = ctx (group s)
          \<and> ctx (errored e (group s')) = ctx (group s')
          \<and> ctx (Cancel (group s')) = ctx (group s')"
      by (simp add: Cancel_def errored_ctx_Done)
  qed
  have b: "waitFunction (group s) = Valid r \<longrightarrow> waitFunction (group s') = Valid r"
    using run_Valid [OF assms] by blast
  from a b show ?thesis by blast
qed

theorem first_cause_wins_witness:
  "run [TaskReturn 0, ParentCancel Canceled None, CallCancel, TaskDone 0]
       \<lparr> group = \<lparr> wg = 1, errOnce = True, waitFunction = Idle,
                   ctxParent = Active, ctx = Ended Canceled ErrorGroupCanceled \<rparr>,
         routines = [RunTask (\<lambda>_. Some (TaskError 7))], watcher = NotSpawned, pending = 0 \<rparr>
     = Some \<lparr> group = \<lparr> wg = 0, errOnce = True, waitFunction = Idle,
                   ctxParent = Ended Canceled Canceled, ctx = Ended Canceled ErrorGroupCanceled \<rparr>,
         routines = [Exited], watcher = NotSpawned, pending = 0 \<rparr>
   \<and> run [CallGo (\<lambda>_. Some (TaskError 7)), CallCancel] (start (NewWithContext Active))
     = Some \<lparr> group = \<lparr> wg = 1, errOnce = True, waitFunction = Idle,
                   ctxParent = Active, ctx = Ended Canceled ErrorGroupCanceled \<rparr>,
         routines = [RunTask (\<lambda>_. Some (TaskError 7))], watcher = NotSpawned, pending = 0 \<rparr>
   \<and> Cause (ctx (group \<lparr> group = \<lparr> wg = 0, errOnce = True, waitFunction = Idle,
                   ctxParent = Ended Canceled Canceled, ctx = Ended Canceled ErrorGroupCanceled \<rparr>,
         routines = [Exited], watcher = NotSpawned, pending = 0 \<rparr>)) = Some ErrorGroupCanceled"
proof -
  have h: "run [TaskReturn 0, ParentCancel Canceled None, CallCancel, TaskDone 0]
       \<lparr> group = \<lparr> wg = 1, errOnce = True, waitFunction = Idle,
                   ctxParent = Active, ctx = Ended Canceled ErrorGroupCanceled \<rparr>,
         routines = [RunTask (\<lambda>_. Some (TaskError 7))], watcher = NotSpawned, pending = 0 \<rparr>
     = Some \<lparr> group = \<lparr> wg = 0, errOnce = True, waitFunction = Idle,
                   ctxParent = Ended Canceled Canceled, ctx = Ended Canceled ErrorGroupCanceled \<rparr>,
         routines = [Exited], watcher = NotSpawned, pending = 0 \<rparr>"
    by (simp add: report_def errored_def Cancel_def done_group_def release_def)
  have c: "Cause (ctx (group \<lparr> group = \<lparr> wg = 1, errOnce = True, waitFunction = Idle,
                   ctxParent = Active, ctx = Ended Canceled ErrorGroupCanceled \<rparr>,
         routines = [RunTask (\<lambda>_. Some (TaskError 7))], watcher = NotSpawned, pending = 0 \<rparr>))
       = Some ErrorGroupCanceled" by simp
  have g: "run [CallGo (\<lambda>_. Some (TaskError 7)), CallCancel] (start (NewWithContext Active))
     = Some \<lparr> group = \<lparr> wg = 1, errOnce = True, waitFunction = Idle,
                   ctxParent = Active, ctx = Ended Canceled ErrorGroupCanceled \<rparr>,
         routines = [RunTask (\<lambda>_. Some (TaskError 7))], watcher = NotSpawned, pending = 0 \<rparr>"
    by (simp add: start_def NewWithContext_def Go_def Cancel_def errored_def cancelCause_def)
  from first_cause_wins [OF h, of ErrorGroupCanceled] c h g show ?thesis by simp
qed

text \<open>
  C3. \<^verbatim>\<open>Cancel\<close> offers \<^verbatim>\<open>ErrorGroupCanceled\<close> to the latch. In a state \<open>s\<close> that a group
  can reach, followed by a call of \<^verbatim>\<open>Cancel\<close> and any schedule \<open>evs\<close>:
  \<^item> if the context of \<open>s\<close> is live (no cause is latched), then \<^verbatim>\<open>context.Cause(g.ctx)\<close> is
    \<^verbatim>\<open>ErrorGroupCanceled\<close> from then on, and, where \<^verbatim>\<open>wait\<close> has not returned before the
    call (no result is cached in \<open>s\<close>), every caller that leaves \<^verbatim>\<open>Wait\<close> in \<open>evs\<close> gets
    \<^verbatim>\<open>ErrorGroupCanceled\<close>, and a call of \<^verbatim>\<open>Wait\<close> right after the \<^verbatim>\<open>Cancel\<close> does return it;
  \<^item> if a cause \<open>c\<close> is latched in \<open>s\<close>, then \<^verbatim>\<open>Cancel\<close> leaves the context as it is, the
    cause stays \<open>c\<close>, and a caller that leaves \<^verbatim>\<open>Wait\<close> gets \<open>c\<close>.
\<close>

theorem Cancel_offers_explicit_cause:
  assumes "run evs0 (start (NewWithContext p)) = Some s"
      and "run (CallCancel # evs) s = Some s'"
  shows "(\<not> Done (ctx (group s)) \<longrightarrow>
            Cause (ctx (group s')) = Some ErrorGroupCanceled
          \<and> (\<not> is_valid (waitFunction (group s)) \<longrightarrow>
               (WaitReturn r \<in> set evs \<longrightarrow> r = Some ErrorGroupCanceled)
             \<and> (\<exists>s''. run (Wait_alone (s\<lparr>group := Cancel (group s)\<rparr>) (Some ErrorGroupCanceled))
                          (s\<lparr>group := Cancel (group s)\<rparr>) = Some s'')))
       \<and> (Cause (ctx (group s)) = Some c \<longrightarrow>
            ctx (Cancel (group s)) = ctx (group s) \<and> Cause (ctx (group s')) = Some c
          \<and> (\<not> is_valid (waitFunction (group s)) \<longrightarrow> WaitReturn r \<in> set evs \<longrightarrow> r = Some c))"
proof -
  define s1 where "s1 = s\<lparr>group := Cancel (group s)\<rparr>"
  from assms(2) have r: "run evs s1 = Some s'" by (simp add: s1_def)
  have co: "coherent s" by (rule reachable_coherent [OF assms(1)])
  have w: "waitFunction (group s1) = waitFunction (group s)"
    by (simp add: s1_def Cancel_def errored_waitFunction)
  have a: "\<not> Done (ctx (group s)) \<longrightarrow>
            Cause (ctx (group s')) = Some ErrorGroupCanceled
          \<and> (\<not> is_valid (waitFunction (group s)) \<longrightarrow>
               (WaitReturn r \<in> set evs \<longrightarrow> r = Some ErrorGroupCanceled)
             \<and> (\<exists>s''. run (Wait_alone s1 (Some ErrorGroupCanceled)) s1 = Some s''))"
  proof (intro impI conjI)
    assume nd: "\<not> Done (ctx (group s))"
    from Cancel_live [OF co nd] have c1: "Cause (ctx (group s1)) = Some ErrorGroupCanceled"
      by (simp add: s1_def)
    from run_ctx_Done [OF r Cause_Done [OF c1]] c1
    show "Cause (ctx (group s')) = Some ErrorGroupCanceled" by simp
    assume nv: "\<not> is_valid (waitFunction (group s))"
    with w have nv1: "\<not> is_valid (waitFunction (group s1))" by simp
    show "WaitReturn r \<in> set evs \<Longrightarrow> r = Some ErrorGroupCanceled"
      by (rule run_returns_latched [OF r c1 nv1])
    from Wait_alone_canceled [OF c1 nv1]
    show "\<exists>s''. run (Wait_alone s1 (Some ErrorGroupCanceled)) s1 = Some s''" by blast
  qed
  have b: "Cause (ctx (group s)) = Some c \<longrightarrow>
            ctx (Cancel (group s)) = ctx (group s) \<and> Cause (ctx (group s')) = Some c
          \<and> (\<not> is_valid (waitFunction (group s)) \<longrightarrow> WaitReturn r \<in> set evs \<longrightarrow> r = Some c)"
  proof (intro impI conjI)
    assume c: "Cause (ctx (group s)) = Some c"
    then have d: "Done (ctx (group s))" by (rule Cause_Done)
    show e: "ctx (Cancel (group s)) = ctx (group s)"
      by (simp add: Cancel_def errored_ctx_Done [OF d])
    with c have c1: "Cause (ctx (group s1)) = Some c" by (simp add: s1_def)
    from run_ctx_Done [OF r Cause_Done [OF c1]] c1
    show "Cause (ctx (group s')) = Some c" by simp
    assume "\<not> is_valid (waitFunction (group s))" "WaitReturn r \<in> set evs"
    with w run_returns_latched [OF r c1] show "r = Some c" by simp
  qed
  from a b show ?thesis unfolding s1_def by blast
qed

theorem Cancel_offers_explicit_cause_witness:
  "run [CallCo (\<lambda>c. None), CallWait, WaitEnter] (start New)
     = Some \<lparr> group = \<lparr> wg = 1, errOnce = False, waitFunction = AtSelect,
                         ctxParent = Background, ctx = Active \<rparr>,
              routines = [RunCo (\<lambda>c. None)], watcher = WgWait, pending = 1 \<rparr>
   \<and> run (CallCancel # [SelectDone, ErroredParent, ReturnCause, WaitReturn (Some ErrorGroupCanceled)])
         \<lparr> group = \<lparr> wg = 1, errOnce = False, waitFunction = AtSelect,
                     ctxParent = Background, ctx = Active \<rparr>,
           routines = [RunCo (\<lambda>c. None)], watcher = WgWait, pending = 1 \<rparr>
     = Some \<lparr> group = \<lparr> wg = 1, errOnce = True,
                         waitFunction = Valid (Some ErrorGroupCanceled),
                         ctxParent = Background, ctx = Ended Canceled ErrorGroupCanceled \<rparr>,
              routines = [RunCo (\<lambda>c. None)], watcher = WgWait, pending = 0 \<rparr>
   \<and> Cause (ctx (group
         \<lparr> group = \<lparr> wg = 1, errOnce = True,
                         waitFunction = Valid (Some ErrorGroupCanceled),
                         ctxParent = Background, ctx = Ended Canceled ErrorGroupCanceled \<rparr>,
              routines = [RunCo (\<lambda>c. None)], watcher = WgWait, pending = 0 \<rparr>))
     = Some ErrorGroupCanceled"
proof -
  have a: "run [CallCo (\<lambda>c. None), CallWait, WaitEnter] (start (NewWithContext Background))
     = Some \<lparr> group = \<lparr> wg = 1, errOnce = False, waitFunction = AtSelect,
                         ctxParent = Background, ctx = Active \<rparr>,
              routines = [RunCo (\<lambda>c. None)], watcher = WgWait, pending = 1 \<rparr>"
    by (simp add: start_def NewWithContext_def Co_def)
  have b: "run (CallCancel # [SelectDone, ErroredParent, ReturnCause, WaitReturn (Some ErrorGroupCanceled)])
         \<lparr> group = \<lparr> wg = 1, errOnce = False, waitFunction = AtSelect,
                     ctxParent = Background, ctx = Active \<rparr>,
           routines = [RunCo (\<lambda>c. None)], watcher = WgWait, pending = 1 \<rparr>
     = Some \<lparr> group = \<lparr> wg = 1, errOnce = True,
                         waitFunction = Valid (Some ErrorGroupCanceled),
                         ctxParent = Background, ctx = Ended Canceled ErrorGroupCanceled \<rparr>,
              routines = [RunCo (\<lambda>c. None)], watcher = WgWait, pending = 0 \<rparr>"
    by (simp add: Cancel_def errored_def cancelCause_def)
  from Cancel_offers_explicit_cause [OF a b] a b show ?thesis
    by (simp add: New_def)
qed

text \<open>
  C3, the case left out above. A caller runs \<^verbatim>\<open>Wait\<close> on the fresh group and gets \<^verbatim>\<open>nil\<close>, which
  is cached. The context is still live: no cause is latched. Then \<^verbatim>\<open>Cancel\<close> is called and
  latches \<^verbatim>\<open>ErrorGroupCanceled\<close>, and the next call of \<^verbatim>\<open>Wait\<close> returns the cached \<^verbatim>\<open>nil\<close>;
  it cannot return \<^verbatim>\<open>ErrorGroupCanceled\<close>.
\<close>

theorem Cancel_after_cached_result_counterexample:
  "run [CallWait, WaitEnter, WatcherWake, SelectCh, ReturnCause, WaitReturn None] (start New)
     = Some 
        \<lparr> group = \<lparr> wg = 0, errOnce = False, waitFunction = Valid None,
                         ctxParent = Background, ctx = Active \<rparr>,
              routines = [], watcher = Delivered, pending = 0 \<rparr>
   \<and> Cause (ctx (group 
        \<lparr> group = \<lparr> wg = 0, errOnce = False, waitFunction = Valid None,
                         ctxParent = Background, ctx = Active \<rparr>,
              routines = [], watcher = Delivered, pending = 0 \<rparr>)) = None
   \<and> run [CallCancel, CallWait, WaitReturn None] 
        \<lparr> group = \<lparr> wg = 0, errOnce = False, waitFunction = Valid None,
                         ctxParent = Background, ctx = Active \<rparr>,
              routines = [], watcher = Delivered, pending = 0 \<rparr>
     = Some \<lparr> group = \<lparr> wg = 0, errOnce = True, waitFunction = Valid None,
                         ctxParent = Background, ctx = Ended Canceled ErrorGroupCanceled \<rparr>,
              routines = [], watcher = Delivered, pending = 0 \<rparr>
   \<and> run [CallCancel, CallWait, WaitReturn (Some ErrorGroupCanceled)] 
        \<lparr> group = \<lparr> wg = 0, errOnce = False, waitFunction = Valid None,
                         ctxParent = Background, ctx = Active \<rparr>,
              routines = [], watcher = Delivered, pending = 0 \<rparr> = None"
  by (simp add: start_def New_def NewWithContext_def Cancel_def errored_def cancelCause_def)

text \<open>
  C4. A group built on a parent that is not canceled; first the schedule \<open>sched\<close>, in which
  \<open>N\<close> uncoordinated tasks are started that all return \<^verbatim>\<open>nil\<close> and no caller has entered
  \<^verbatim>\<open>Wait\<close> yet; then the schedule \<open>rest\<close>, in which nothing more is started; in neither of
  them a call of \<^verbatim>\<open>Cancel\<close>, a cancellation of the parent, or a task that fails. In the
  state \<open>s\<close> reached:
  \<^item> the group has these \<open>N\<close> task goroutines, and the watcher has not panicked;
  \<^item> once \<^verbatim>\<open>wait\<close> has left its \<^verbatim>\<open>select\<close>, and so whenever a result is cached, the counter
    is zero and each of the \<open>N\<close> goroutines has run its deferred \<^verbatim>\<open>g.done()\<close>;
  \<^item> a caller can leave \<^verbatim>\<open>Wait\<close> only with \<^verbatim>\<open>nil\<close>, and only in such a state;
  \<^item> the deferred \<^verbatim>\<open>g.done()\<close> of a task goroutine lowers the counter by one and ends the
    goroutine;
  \<^item> \<^verbatim>\<open>Wait\<close> does return: the schedule \<open>finish_tasks s\<close> lets the goroutines that are left
    run to their end, which brings the counter to zero by their calls of \<^verbatim>\<open>g.done()\<close>, and
    from the state reached a call of \<^verbatim>\<open>Wait\<close> returns \<^verbatim>\<open>nil\<close>.
\<close>

theorem wait_after_all_tasks:
  assumes "\<not> Done p"
      and "\<forall>e\<in>set sched. benign e \<and> e \<noteq> CallWait"
      and "\<forall>e\<in>set rest. benign e \<and> \<not> scheduling e"
      and "run (sched @ rest) (start (NewWithContext p)) = Some s"
  shows "length (routines s) = length (filter scheduling sched)
       \<and> \<not> aborted s
       \<and> (3 \<le> rank (waitFunction (group s)) \<longrightarrow>
            wg (group s) = 0 \<and> (\<forall>x\<in>set (routines s). x = Exited))
       \<and> (step (WaitReturn r) s \<noteq> None \<longrightarrow>
            r = None \<and> wg (group s) = 0 \<and> (\<forall>x\<in>set (routines s). x = Exited))
       \<and> (\<forall>i s'. step (TaskDone i) s = Some s' \<longrightarrow>
            wg (group s') = wg (group s) - 1 \<and> routines s' ! i = Exited)
       \<and> (\<exists>s1 s2. run (finish_tasks s) s = Some s1
             \<and> (\<forall>x\<in>set (routines s1). x = Exited)
             \<and> length (routines s1) = length (filter scheduling sched)
             \<and> wg (group s1) = 0
             \<and> run (Wait_alone s1 None) s1 = Some s2)"
proof -
  from assms(4) obtain s1 where s1: "run sched (start (NewWithContext p)) = Some s1"
      and s2: "run rest s1 = Some s"
    by (auto simp: run_append split: option.splits)
  have i: "pending (start (NewWithContext p)) = 0"
      "waitFunction (group (start (NewWithContext p))) = Idle"
    by (simp_all add: start_def NewWithContext_def)
  from run_quiet_sched [OF s1 quiet_start [OF assms(1)] assms(2) i]
  have q1: "quiet s1" by simp
  have q: "quiet s" by (rule run_quiet [OF s2 q1 assms(3)])
  have "filter scheduling rest = []" using assms(3) by (simp add: filter_empty_conv)
  with run_length_routines [OF s1] run_length_routines [OF s2]
  have n: "length (routines s) = length (filter scheduling sched)"
    by (simp add: start_def)
  from q have a: "\<not> aborted s" by (simp add: quiet_def aborted_def)
  have d: "3 \<le> rank (waitFunction (group s)) \<longrightarrow>
            wg (group s) = 0 \<and> (\<forall>x\<in>set (routines s). x = Exited)"
  proof (intro impI)
    assume "3 \<le> rank (waitFunction (group s))"
    with q have z: "wg (group s) = 0" by (simp add: quiet_def)
    with q have "outstanding (routines s) = 0" by (simp add: quiet_def coherent_def)
    with z show "wg (group s) = 0 \<and> (\<forall>x\<in>set (routines s). x = Exited)"
      using outstanding_0 by blast
  qed
  have v: "step (WaitReturn r) s \<noteq> None \<longrightarrow>
            r = None \<and> wg (group s) = 0 \<and> (\<forall>x\<in>set (routines s). x = Exited)"
  proof (intro impI)
    assume "step (WaitReturn r) s \<noteq> None"
    then have w: "waitFunction (group s) = Valid r" by (simp split: if_splits)
    with q have "r = None" by (simp add: quiet_def)
    moreover from w d have "wg (group s) = 0 \<and> (\<forall>x\<in>set (routines s). x = Exited)" by simp
    ultimately show "r = None \<and> wg (group s) = 0 \<and> (\<forall>x\<in>set (routines s). x = Exited)"
      by simp
  qed
  have t: "\<forall>i s'. step (TaskDone i) s = Some s' \<longrightarrow>
            wg (group s') = wg (group s) - 1 \<and> routines s' ! i = Exited"
  proof (intro allI impI)
    fix i s'
    assume "step (TaskDone i) s = Some s'"
    from step_TaskDone_form [OF this]
    show "wg (group s') = wg (group s) - 1 \<and> routines s' ! i = Exited"
      by (simp add: done_group_def release_def)
  qed
  from run_finish [of s "[]" "routines s" 0] obtain f1 where
    r: "run (finish_tasks s) s = Some f1"
    and rs: "routines f1 = replicate (length (routines s)) Exited"
    by (auto simp: finish_tasks_def)
  have "\<forall>e\<in>set (finish_tasks s). benign e \<and> \<not> scheduling e"
    using finish_events by (auto simp: finish_tasks_def)
  from run_quiet [OF r q this] have qf: "quiet f1" .
  have "outstanding (replicate (length (routines s)) Exited) = 0"
    by (simp add: outstanding_def)
  with qf rs have z: "wg (group f1) = 0" by (simp add: quiet_def coherent_def)
  from qf have "coherent f1" "\<not> Done (ctx (group f1))"
      "is_valid (waitFunction (group f1)) \<longrightarrow> waitFunction (group f1) = Valid None"
      "watcher f1 \<noteq> Panicked"
    by (simp_all add: quiet_def)
  from Wait_alone_drained [OF this(1,2) z this(3,4)] obtain f2 where
    w: "run (Wait_alone f1 None) f1 = Some f2" by blast
  from rs have "\<forall>x\<in>set (routines f1). x = Exited" "length (routines f1) = length (routines s)"
    by simp_all
  with r z w n
  have l: "\<exists>s1 s2. run (finish_tasks s) s = Some s1
             \<and> (\<forall>x\<in>set (routines s1). x = Exited)
             \<and> length (routines s1) = length (filter scheduling sched)
             \<and> wg (group s1) = 0
             \<and> run (Wait_alone s1 None) s1 = Some s2" by auto
  from n a d v t l show ?thesis by blast
qed

theorem wait_after_all_tasks_witness:
  "run ([CallGo (\<lambda>_. None), CallGo (\<lambda>_. None), TaskReturn 0] @
        [CallWait, WaitEnter, WatcherBlock, TaskReturn 1, TaskDone 1, TaskDone 0])
       (start (NewWithContext Background))
     = Some \<lparr> group = \<lparr> wg = 0, errOnce = False, waitFunction = AtSelect,
                         ctxParent = Background, ctx = Active \<rparr>,
              routines = [Exited, Exited], watcher = Released, pending = 1 \<rparr>
   \<and> run ([CallGo (\<lambda>_. None), CallGo (\<lambda>_. None), TaskReturn 0] @ [CallWait, WaitEnter])
       (start (NewWithContext Background))
     = Some \<lparr> group = \<lparr> wg = 2, errOnce = False, waitFunction = AtSelect,
                         ctxParent = Background, ctx = Active \<rparr>,
              routines = [Deferred, RunTask (\<lambda>_. None)], watcher = WgWait, pending = 1 \<rparr>
   \<and> finish_tasks
        \<lparr> group = \<lparr> wg = 2, errOnce = False, waitFunction = AtSelect,
                    ctxParent = Background, ctx = Active \<rparr>,
          routines = [Deferred, RunTask (\<lambda>_. None)], watcher = WgWait, pending = 1 \<rparr>
     = [TaskDone 0, TaskReturn 1, TaskDone 1]
   \<and> run ([TaskDone 0, TaskReturn 1, TaskDone 1] @
          [CallWait, WatcherWake, SelectCh, ReturnCause, WaitReturn None])
        \<lparr> group = \<lparr> wg = 2, errOnce = False, waitFunction = AtSelect,
                    ctxParent = Background, ctx = Active \<rparr>,
          routines = [Deferred, RunTask (\<lambda>_. None)], watcher = WgWait, pending = 1 \<rparr>
     = Some \<lparr> group = \<lparr> wg = 0, errOnce = False, waitFunction = Valid None,
                         ctxParent = Background, ctx = Active \<rparr>,
              routines = [Exited, Exited], watcher = Delivered, pending = 1 \<rparr>
   \<and> length (filter scheduling [CallGo (\<lambda>_. None), CallGo (\<lambda>_. None), TaskReturn 0]) = 2"
proof -
  have a: "\<not> Done Background" by simp
  have b: "\<forall>e\<in>set [CallGo (\<lambda>_. None), CallGo (\<lambda>_. None), TaskReturn 0]. benign e \<and> e \<noteq> CallWait"
    by simp
  have c: "\<forall>e\<in>set [CallWait, WaitEnter]. benign e \<and> \<not> scheduling e"
    by simp
  have d: "run ([CallGo (\<lambda>_. None), CallGo (\<lambda>_. None), TaskReturn 0] @
        [CallWait, WaitEnter, WatcherBlock, TaskReturn 1, TaskDone 1, TaskDone 0])
       (start (NewWithContext Background))
     = Some \<lparr> group = \<lparr> wg = 0, errOnce = False, waitFunction = AtSelect,
                         ctxParent = Background, ctx = Active \<rparr>,
              routines = [Exited, Exited], watcher = Released, pending = 1 \<rparr>"
    by (simp add: start_def NewWithContext_def Go_def report_def done_group_def release_def)
  have e: "run ([CallGo (\<lambda>_. None), CallGo (\<lambda>_. None), TaskReturn 0] @ [CallWait, WaitEnter])
       (start (NewWithContext Background))
     = Some \<lparr> group = \<lparr> wg = 2, errOnce = False, waitFunction = AtSelect,
                         ctxParent = Background, ctx = Active \<rparr>,
              routines = [Deferred, RunTask (\<lambda>_. None)], watcher = WgWait, pending = 1 \<rparr>"
    by (simp add: start_def NewWithContext_def Go_def report_def)
  have f: "finish_tasks
        \<lparr> group = \<lparr> wg = 2, errOnce = False, waitFunction = AtSelect,
                    ctxParent = Background, ctx = Active \<rparr>,
          routines = [Deferred, RunTask (\<lambda>_. None)], watcher = WgWait, pending = 1 \<rparr>
     = [TaskDone 0, TaskReturn 1, TaskDone 1]"
    by (simp add: finish_tasks_def)
  have g: "run ([TaskDone 0, TaskReturn 1, TaskDone 1] @
          [CallWait, WatcherWake, SelectCh, ReturnCause, WaitReturn None])
        \<lparr> group = \<lparr> wg = 2, errOnce = False, waitFunction = AtSelect,
                    ctxParent = Background, ctx = Active \<rparr>,
          routines = [Deferred, RunTask (\<lambda>_. None)], watcher = WgWait, pending = 1 \<rparr>
     = Some \<lparr> group = \<lparr> wg = 0, errOnce = False, waitFunction = Valid None,
                         ctxParent = Background, ctx = Active \<rparr>,
              routines = [Exited, Exited], watcher = Delivered, pending = 1 \<rparr>"
    by (simp add: report_def done_group_def release_def)
  from wait_after_all_tasks [OF a b c e, of None] d e f g show ?thesis
    by simp
qed

text \<open>
  C4, the case left out above. A caller runs \<^verbatim>\<open>Wait\<close> on the fresh group and gets \<^verbatim>\<open>nil\<close>,
  which is cached; then a task that succeeds is started; the next call of \<^verbatim>\<open>Wait\<close> returns
  \<^verbatim>\<open>nil\<close> while the task is still running and the counter is 1.
\<close>

theorem wait_before_tasks_counterexample:
  "run [CallWait, WaitEnter, WatcherWake, SelectCh, ReturnCause, WaitReturn None,
        CallGo (\<lambda>_. None), CallWait, WaitReturn None] (start New)
     = Some \<lparr> group = \<lparr> wg = 1, errOnce = False, waitFunction = Valid None,
                         ctxParent = Background, ctx = Active \<rparr>,
              routines = [RunTask (\<lambda>_. None)], watcher = Delivered, pending = 0 \<rparr>"
  by (simp add: start_def New_def NewWithContext_def Go_def)

text \<open>
  C5. A task that reports an error. In a state \<open>s\<close> that a group can reach and in which the
  context is live (no cause is latched), the \<open>i\<close>-th task goroutine returns the error \<open>e\<close>
  (an uncoordinated task \<open>t\<close>, or a coordinated task \<open>u\<close> looking at the context); any
  schedule \<open>evs\<close> follows. Then \<^verbatim>\<open>context.Cause(g.ctx)\<close> is \<open>e\<close> itself after \<open>evs\<close>, whatever
  errors other tasks report in \<open>evs\<close>; and, where \<^verbatim>\<open>wait\<close> has not returned before (no result
  is cached in \<open>s\<close>), every caller that leaves \<^verbatim>\<open>Wait\<close> in \<open>evs\<close> gets \<open>e\<close>, and a call of
  \<^verbatim>\<open>Wait\<close> right after the report does return \<open>e\<close>.
\<close>

theorem task_error_first_wins:
  assumes "run evs0 (start (NewWithContext p)) = Some s"
      and "\<not> Done (ctx (group s))"
      and "i < length (routines s)"
      and "routines s ! i = RunTask t \<and> t () = Some e
         \<or> routines s ! i = RunCo u \<and> u (ctx (group s)) = Some e"
      and "run (TaskReturn i # evs) s = Some s'"
  shows "Cause (ctx (group s')) = Some e
       \<and> (\<not> is_valid (waitFunction (group s)) \<longrightarrow>
            (WaitReturn r \<in> set evs \<longrightarrow> r = Some e)
          \<and> (\<exists>s''. run (TaskReturn i # Wait_alone
                 (s\<lparr>group := report (Some e) (group s), routines := (routines s)[i := Deferred]\<rparr>)
                 (Some e)) s = Some s''))"
proof -
  define s1 where
    "s1 = s\<lparr>group := report (Some e) (group s), routines := (routines s)[i := Deferred]\<rparr>"
  from assms(3,4) have st: "step (TaskReturn i) s = Some s1"
    by (auto simp: s1_def)
  with assms(5) have r: "run evs s1 = Some s'" by simp
  have co: "coherent s" by (rule reachable_coherent [OF assms(1)])
  from report_live [OF co assms(2)] have c1: "Cause (ctx (group s1)) = Some e"
    by (simp add: s1_def)
  have w: "waitFunction (group s1) = waitFunction (group s)"
    by (simp add: s1_def report_waitFunction)
  from run_ctx_Done [OF r Cause_Done [OF c1]] c1
  have a: "Cause (ctx (group s')) = Some e" by simp
  have b: "\<not> is_valid (waitFunction (group s)) \<longrightarrow>
            (WaitReturn r \<in> set evs \<longrightarrow> r = Some e)
          \<and> (\<exists>s''. run (TaskReturn i # Wait_alone s1 (Some e)) s = Some s'')"
  proof (intro impI conjI)
    assume "\<not> is_valid (waitFunction (group s))"
    with w have nv1: "\<not> is_valid (waitFunction (group s1))" by simp
    show "WaitReturn r \<in> set evs \<Longrightarrow> r = Some e"
      by (rule run_returns_latched [OF r c1 nv1])
    from Wait_alone_canceled [OF c1 nv1] st
    show "\<exists>s''. run (TaskReturn i # Wait_alone s1 (Some e)) s = Some s''" by auto
  qed
  from a b show ?thesis unfolding s1_def by blast
qed

theorem task_error_first_wins_witness:
  "run [CallGo (\<lambda>_. Some (TaskError 1)), CallGo (\<lambda>_. Some (TaskError 2)), CallWait, WaitEnter]
       (start New)
     = Some \<lparr> group = \<lparr> wg = 2, errOnce = False, waitFunction = AtSelect,
                         ctxParent = Background, ctx = Active \<rparr>,
              routines = [RunTask (\<lambda>_. Some (TaskError 1)), RunTask (\<lambda>_. Some (TaskError 2))],
              watcher = WgWait, pending = 1 \<rparr>
   \<and> run (TaskReturn 0 # [TaskReturn 1, SelectDone, ErroredParent, ReturnCause,
                           WaitReturn (Some (TaskError 1))])
         \<lparr> group = \<lparr> wg = 2, errOnce = False, waitFunction = AtSelect,
                     ctxParent = Background, ctx = Active \<rparr>,
           routines = [RunTask (\<lambda>_. Some (TaskError 1)), RunTask (\<lambda>_. Some (TaskError 2))],
           watcher = WgWait, pending = 1 \<rparr>
     = Some \<lparr> group = \<lparr> wg = 2, errOnce = True, waitFunction = Valid (Some (TaskError 1)),
                         ctxParent = Background, ctx = Ended Canceled (TaskError 1) \<rparr>,
              routines = [Deferred, Deferred], watcher = WgWait, pending = 0 \<rparr>
   \<and> Cause (ctx (group
         \<lparr> group = \<lparr> wg = 2, errOnce = True, waitFunction = Valid (Some (TaskError 1)),
                         ctxParent = Background, ctx = Ended Canceled (TaskError 1) \<rparr>,
              routines = [Deferred, Deferred], watcher = WgWait, pending = 0 \<rparr>))
     = Some (TaskError 1)"
proof -
  have a: "run [CallGo (\<lambda>_. Some (TaskError 1)), CallGo (\<lambda>_. Some (TaskError 2)), CallWait, WaitEnter]
       (start (NewWithContext Background))
     = Some \<lparr> group = \<lparr> wg = 2, errOnce = False, waitFunction = AtSelect,
                         ctxParent = Background, ctx = Active \<rparr>,
              routines = [RunTask (\<lambda>_. Some (TaskError 1)), RunTask (\<lambda>_. Some (TaskError 2))],
              watcher = WgWait, pending = 1 \<rparr>"
    by (simp add: start_def NewWithContext_def Go_def)
  have b: "\<not> Done (ctx (group
         \<lparr> group = \<lparr> wg = 2, errOnce = False, waitFunction = AtSelect,
                     ctxParent = Background, ctx = Active \<rparr>,
           routines = [RunTask (\<lambda>_. Some (TaskError 1)), RunTask (\<lambda>_. Some (TaskError 2))],
           watcher = WgWait, pending = 1 \<rparr>))" by simp
  have c: "0 < length (routines
         \<lparr> group = \<lparr> wg = 2, errOnce = False, waitFunction = AtSelect,
                     ctxParent = Background, ctx = Active \<rparr>,
           routines = [RunTask (\<lambda>_. Some (TaskError 1)), RunTask (\<lambda>_. Some (TaskError 2))],
           watcher = WgWait, pending = 1 \<rparr>)" by simp
  have d: "routines
         \<lparr> group = \<lparr> wg = 2, errOnce = False, waitFunction = AtSelect,
                     ctxParent = Background, ctx = Active \<rparr>,
           routines = [RunTask (\<lambda>_. Some (TaskError 1)), RunTask (\<lambda>_. Some (TaskError 2))],
           watcher = WgWait, pending = 1 \<rparr> ! 0 = RunTask (\<lambda>_. Some (TaskError 1))
         \<and> (\<lambda>_. Some (TaskError 1)) () = Some (TaskError 1)
       \<or> routines
         \<lparr> group = \<lparr> wg = 2, errOnce = False, waitFunction = AtSelect,
                     ctxParent = Background, ctx = Active \<rparr>,
           routines = [RunTask (\<lambda>_. Some (TaskError 1)), RunTask (\<lambda>_. Some (TaskError 2))],
           watcher = WgWait, pending = 1 \<rparr> ! 0 = RunCo (\<lambda>c. None)
         \<and> (\<lambda>c. None) (ctx (group
         \<lparr> group = \<lparr> wg = 2, errOnce = False, waitFunction = AtSelect,
                     ctxParent = Background, ctx = Active \<rparr>,
           routines = [RunTask (\<lambda>_. Some (TaskError 1)), RunTask (\<lambda>_. Some (TaskError 2))],
           watcher = WgWait, pending = 1 \<rparr>)) = Some (TaskError 1)" by simp
  have e: "run (TaskReturn 0 # [TaskReturn 1, SelectDone, ErroredParent, ReturnCause,
                           WaitReturn (Some (TaskError 1))])
         \<lparr> group = \<lparr> wg = 2, errOnce = False, waitFunction = AtSelect,
                     ctxParent = Background, ctx = Active \<rparr>,
           routines = [RunTask (\<lambda>_. Some (TaskError 1)), RunTask (\<lambda>_. Some (TaskError 2))],
           watcher = WgWait, pending = 1 \<rparr>
     = Some \<lparr> group = \<lparr> wg = 2, errOnce = True, waitFunction = Valid (Some (TaskError 1)),
                         ctxParent = Background, ctx = Ended Canceled (TaskError 1) \<rparr>,
              routines = [Deferred, Deferred], watcher = WgWait, pending = 0 \<rparr>"
    by (simp add: report_def errored_def cancelCause_def)
  from task_error_first_wins [OF a b c d e] a e show ?thesis
    by (simp add: New_def)
qed

text \<open>
  C5, the case left out above. A caller runs \<^verbatim>\<open>Wait\<close> on the fresh group and gets \<^verbatim>\<open>nil\<close>, which
  is cached; then a task is started. No cause is latched. The task returns an error, which
  is the first cause latched, and the next call of \<^verbatim>\<open>Wait\<close> returns the cached \<^verbatim>\<open>nil\<close>; it
  cannot return the error of the task.
\<close>

theorem task_error_after_cached_result_counterexample:
  "run [CallWait, WaitEnter, WatcherWake, SelectCh, ReturnCause, WaitReturn None,
        CallGo (\<lambda>_. Some (TaskError 1))] (start New)
     = Some \<lparr> group = \<lparr> wg = 1, errOnce = False, waitFunction = Valid None,
                         ctxParent = Background, ctx = Active \<rparr>,
              routines = [RunTask (\<lambda>_. Some (TaskError 1))], watcher = Delivered, pending = 0 \<rparr>
   \<and> run [TaskReturn 0, CallWait, WaitReturn None]
         \<lparr> group = \<lparr> wg = 1, errOnce = False, waitFunction = Valid None,
                     ctxParent = Background, ctx = Active \<rparr>,
           routines = [RunTask (\<lambda>_. Some (TaskError 1))], watcher = Delivered, pending = 0 \<rparr>
     = Some \<lparr> group = \<lparr> wg = 1, errOnce = True, waitFunction = Valid None,
                         ctxParent = Background, ctx = Ended Canceled (TaskError 1) \<rparr>,
              routines = [Deferred], watcher = Delivered, pending = 0 \<rparr>
   \<and> run [TaskReturn 0, CallWait, WaitReturn (Some (TaskError 1))]
         \<lparr> group = \<lparr> wg = 1, errOnce = False, waitFunction = Valid None,
                     ctxParent = Background, ctx = Active \<rparr>,
           routines = [RunTask (\<lambda>_. Some (TaskError 1))], watcher = Delivered, pending = 0 \<rparr>
     = None"
  by (simp add: start_def New_def NewWithContext_def Go_def report_def errored_def cancelCause_def)

text \<open>
  C6. What \<^verbatim>\<open>Wait\<close> returns after the parent context is canceled. In a state \<open>s\<close> that a
  group can reach, with a live context (no cause is latched) and no cached result, the
  owner of the parent cancels it: \<open>ParentCancel e k\<close>, so that the parent's \<^verbatim>\<open>Err()\<close> is \<open>e\<close>
  and its cause is \<open>k\<close>, or \<open>e\<close> when \<open>k\<close> is \<^verbatim>\<open>nil\<close>. The cancellation reaches the group's
  context with the cause of the parent, and this is what every caller of \<^verbatim>\<open>Wait\<close> gets:
  \<^verbatim>\<open>context.Canceled\<close> for a parent made by \<^verbatim>\<open>context.WithCancel\<close>. The call
  \<^verbatim>\<open>g.errored(ErrorParentContextCanceled)\<close> in \<^verbatim>\<open>wait\<close> comes after the context is
  canceled and does not change its cause, so \<^verbatim>\<open>ErrorParentContextCanceled\<close> is returned
  only if the parent itself was canceled with that value as its cause.
\<close>

theorem parent_cancel_returns_parent_cause:
  assumes "run evs0 (start (NewWithContext p)) = Some s"
      and "\<not> Done (ctx (group s))"
      and "\<not> is_valid (waitFunction (group s))"
      and "run (ParentCancel e k # evs) s = Some s'"
  shows "Cause (ctx (group s')) = Some (case k of None \<Rightarrow> e | Some c \<Rightarrow> c)
       \<and> (WaitReturn r \<in> set evs \<longrightarrow> r = Some (case k of None \<Rightarrow> e | Some c \<Rightarrow> c))
       \<and> (WaitReturn (Some ErrorParentContextCanceled) \<in> set evs \<longrightarrow>
            (case k of None \<Rightarrow> e | Some c \<Rightarrow> c) = ErrorParentContextCanceled)"
proof -
  from assms(4) obtain s1 where st: "step (ParentCancel e k) s = Some s1"
      and r: "run evs s1 = Some s'"
    by (auto split: option.splits)
  from ParentCancel_live [OF st assms(2)] assms(3)
  have c1: "Cause (ctx (group s1)) = Some (case k of None \<Rightarrow> e | Some c \<Rightarrow> c)"
    and nv1: "\<not> is_valid (waitFunction (group s1))" by simp_all
  from run_ctx_Done [OF r Cause_Done [OF c1]] c1
  have a: "Cause (ctx (group s')) = Some (case k of None \<Rightarrow> e | Some c \<Rightarrow> c)" by simp
  have b: "WaitReturn r \<in> set evs \<longrightarrow> r = Some (case k of None \<Rightarrow> e | Some c \<Rightarrow> c)"
    using run_returns_latched [OF r c1 nv1] by blast
  have c: "WaitReturn (Some ErrorParentContextCanceled) \<in> set evs \<longrightarrow>
            (case k of None \<Rightarrow> e | Some c \<Rightarrow> c) = ErrorParentContextCanceled"
    using run_returns_latched [OF r c1 nv1, of "Some ErrorParentContextCanceled"] by auto
  from a b c show ?thesis by blast
qed

theorem parent_cancel_returns_parent_cause_witness:
  "run [CallCo (\<lambda>c. None), CallWait, WaitEnter] (start (NewWithContext Active))
     = Some \<lparr> group = \<lparr> wg = 1, errOnce = False, waitFunction = AtSelect,
                         ctxParent = Active, ctx = Active \<rparr>,
              routines = [RunCo (\<lambda>c. None)], watcher = WgWait, pending = 1 \<rparr>
   \<and> run (ParentCancel Canceled None #
            [SelectDone, ErroredParent, ReturnCause, WaitReturn (Some Canceled)])
         \<lparr> group = \<lparr> wg = 1, errOnce = False, waitFunction = AtSelect,
                     ctxParent = Active, ctx = Active \<rparr>,
           routines = [RunCo (\<lambda>c. None)], watcher = WgWait, pending = 1 \<rparr>
     = Some \<lparr> group = \<lparr> wg = 1, errOnce = True, waitFunction = Valid (Some Canceled),
                         ctxParent = Ended Canceled Canceled, ctx = Ended Canceled Canceled \<rparr>,
              routines = [RunCo (\<lambda>c. None)], watcher = WgWait, pending = 0 \<rparr>
   \<and> run (ParentCancel Canceled None #
            [SelectDone, ErroredParent, ReturnCause, WaitReturn (Some ErrorParentContextCanceled)])
         \<lparr> group = \<lparr> wg = 1, errOnce = False, waitFunction = AtSelect,
                     ctxParent = Active, ctx = Active \<rparr>,
           routines = [RunCo (\<lambda>c. None)], watcher = WgWait, pending = 1 \<rparr>
     = None"
proof -
  have a: "run [CallCo (\<lambda>c. None), CallWait, WaitEnter] (start (NewWithContext Active))
     = Some \<lparr> group = \<lparr> wg = 1, errOnce = False, waitFunction = AtSelect,
                         ctxParent = Active, ctx = Active \<rparr>,
              routines = [RunCo (\<lambda>c. None)], watcher = WgWait, pending = 1 \<rparr>"
    by (simp add: start_def NewWithContext_def Co_def)
  have b: "\<not> Done (ctx (group
         \<lparr> group = \<lparr> wg = 1, errOnce = False, waitFunction = AtSelect,
                     ctxParent = Active, ctx = Active \<rparr>,
           routines = [RunCo (\<lambda>c. None)], watcher = WgWait, pending = 1 \<rparr>))" by simp
  have c: "\<not> is_valid (waitFunction (group
         \<lparr> group = \<lparr> wg = 1, errOnce = False, waitFunction = AtSelect,
                     ctxParent = Active, ctx = Active \<rparr>,
           routines = [RunCo (\<lambda>c. None)], watcher = WgWait, pending = 1 \<rparr>))" by simp
  have d: "run (ParentCancel Canceled None #
            [SelectDone, ErroredParent, ReturnCause, WaitReturn (Some Canceled)])
         \<lparr> group = \<lparr> wg = 1, errOnce = False, waitFunction = AtSelect,
                     ctxParent = Active, ctx = Active \<rparr>,
           routines = [RunCo (\<lambda>c. None)], watcher = WgWait, pending = 1 \<rparr>
     = Some \<lparr> group = \<lparr> wg = 1, errOnce = True, waitFunction = Valid (Some Canceled),
                         ctxParent = Ended Canceled Canceled, ctx = Ended Canceled Canceled \<rparr>,
              routines = [RunCo (\<lambda>c. None)], watcher = WgWait, pending = 0 \<rparr>"
    by (simp add: errored_def cancelCause_def Let_def)
  have e: "run (ParentCancel Canceled None #
            [SelectDone, ErroredParent, ReturnCause, WaitReturn (Some ErrorParentContextCanceled)])
         \<lparr> group = \<lparr> wg = 1, errOnce = False, waitFunction = AtSelect,
                     ctxParent = Active, ctx = Active \<rparr>,
           routines = [RunCo (\<lambda>c. None)], watcher = WgWait, pending = 1 \<rparr>
     = None"
    by (simp add: errored_def cancelCause_def Let_def)
  from parent_cancel_returns_parent_cause [OF a b c d] a d e show ?thesis by simp
qed

text \<open>
  C7. The context is canceled with cause \<open>c\<close> while the counter is positive, and \<^verbatim>\<open>wait\<close>
  has not returned before (no result is cached). Then a call of \<^verbatim>\<open>Wait\<close> returns \<open>c\<close> by
  the steps of the caller and of \<^verbatim>\<open>wait\<close> alone: the schedule holds no step of a task
  goroutine and none of the watcher, the task goroutines are as they were and the counter
  is still the same positive number when the caller has left \<^verbatim>\<open>Wait\<close>. And whatever else
  happens, every caller that leaves \<^verbatim>\<open>Wait\<close> gets \<open>c\<close>.
\<close>

theorem cancellation_wins_at_once:
  assumes "Cause (ctx (group s)) = Some c"
      and "0 < wg (group s)"
      and "\<not> is_valid (waitFunction (group s))"
  shows "(\<exists>s'. run (Wait_alone s (Some c)) s = Some s' \<and> routines s' = routines s
            \<and> wg (group s') = wg (group s) \<and> 0 < wg (group s'))
       \<and> set (Wait_alone s (Some c)) \<subseteq>
           {CallWait, WaitEnter, SelectDone, ErroredParent, ReturnCause, WaitReturn (Some c)}
       \<and> (\<forall>evs s' r. run evs s = Some s' \<longrightarrow> WaitReturn r \<in> set evs \<longrightarrow> r = Some c)"
proof -
  from Wait_alone_canceled [OF assms(1,3)] assms(2)
  have a: "\<exists>s'. run (Wait_alone s (Some c)) s = Some s' \<and> routines s' = routines s
            \<and> wg (group s') = wg (group s) \<and> 0 < wg (group s')" by auto
  have d: "Done (ctx (group s))" by (rule Cause_Done [OF assms(1)])
  have b: "set (Wait_alone s (Some c)) \<subseteq>
           {CallWait, WaitEnter, SelectDone, ErroredParent, ReturnCause, WaitReturn (Some c)}"
    using d by (cases "waitFunction (group s)") (simp_all add: Wait_alone_def wait_path_def)
  have e: "\<forall>evs s' r. run evs s = Some s' \<longrightarrow> WaitReturn r \<in> set evs \<longrightarrow> r = Some c"
    using run_returns_latched [OF _ assms(1,3)] by blast
  from a b e show ?thesis by blast
qed

theorem cancellation_wins_at_once_witness:
  "run [CallCo (\<lambda>c. None), CallGo (\<lambda>_. None), CallWait, WaitEnter, CallCancel] (start New)
     = Some \<lparr> group = \<lparr> wg = 2, errOnce = True, waitFunction = AtSelect,
                         ctxParent = Background, ctx = Ended Canceled ErrorGroupCanceled \<rparr>,
              routines = [RunCo (\<lambda>c. None), RunTask (\<lambda>_. None)],
              watcher = WgWait, pending = 1 \<rparr>
   \<and> Wait_alone
         \<lparr> group = \<lparr> wg = 2, errOnce = True, waitFunction = AtSelect,
                     ctxParent = Background, ctx = Ended Canceled ErrorGroupCanceled \<rparr>,
           routines = [RunCo (\<lambda>c. None), RunTask (\<lambda>_. None)],
           watcher = WgWait, pending = 1 \<rparr> (Some ErrorGroupCanceled)
     = [CallWait, SelectDone, ErroredParent, ReturnCause, WaitReturn (Some ErrorGroupCanceled)]
   \<and> run [CallWait, SelectDone, ErroredParent, ReturnCause, WaitReturn (Some ErrorGroupCanceled)]
         \<lparr> group = \<lparr> wg = 2, errOnce = True, waitFunction = AtSelect,
                     ctxParent = Background, ctx = Ended Canceled ErrorGroupCanceled \<rparr>,
           routines = [RunCo (\<lambda>c. None), RunTask (\<lambda>_. None)],
           watcher = WgWait, pending = 1 \<rparr>
     = Some \<lparr> group = \<lparr> wg = 2, errOnce = True,
                         waitFunction = Valid (Some ErrorGroupCanceled),
                         ctxParent = Background, ctx = Ended Canceled ErrorGroupCanceled \<rparr>,
              routines = [RunCo (\<lambda>c. None), RunTask (\<lambda>_. None)],
              watcher = WgWait, pending = 1 \<rparr>"
proof -
  have a: "Cause (ctx (group
         \<lparr> group = \<lparr> wg = 2, errOnce = True, waitFunction = AtSelect,
                     ctxParent = Background, ctx = Ended Canceled ErrorGroupCanceled \<rparr>,
           routines = [RunCo (\<lambda>c. None), RunTask (\<lambda>_. None)],
           watcher = WgWait, pending = 1 \<rparr>)) = Some ErrorGroupCanceled" by simp
  have b: "0 < wg (group
         \<lparr> group = \<lparr> wg = 2, errOnce = True, waitFunction = AtSelect,
                     ctxParent = Background, ctx = Ended Canceled ErrorGroupCanceled \<rparr>,
           routines = [RunCo (\<lambda>c. None), RunTask (\<lambda>_. None)],
           watcher = WgWait, pending = 1 \<rparr>)" by simp
  have c: "\<not> is_valid (waitFunction (group
         \<lparr> group = \<lparr> wg = 2, errOnce = True, waitFunction = AtSelect,
                     ctxParent = Background, ctx = Ended Canceled ErrorGroupCanceled \<rparr>,
           routines = [RunCo (\<lambda>c. None), RunTask (\<lambda>_. None)],
           watcher = WgWait, pending = 1 \<rparr>))" by simp
  have d: "run [CallCo (\<lambda>c. None), CallGo (\<lambda>_. None), CallWait, WaitEnter, CallCancel] (start New)
     = Some \<lparr> group = \<lparr> wg = 2, errOnce = True, waitFunction = AtSelect,
                         ctxParent = Background, ctx = Ended Canceled ErrorGroupCanceled \<rparr>,
              routines = [RunCo (\<lambda>c. None), RunTask (\<lambda>_. None)],
              watcher = WgWait, pending = 1 \<rparr>"
    by (simp add: start_def New_def NewWithContext_def Go_def Co_def Cancel_def errored_def
          cancelCause_def)
  from cancellation_wins_at_once [OF a b c] d show ?thesis
    by (simp add: Wait_alone_def wait_path_def errored_def)
qed

text \<open>
  C7, the case left out above. A caller runs \<^verbatim>\<open>Wait\<close> on the fresh group and gets \<^verbatim>\<open>nil\<close>, which
  is cached; then a coordinated task is started. \<^verbatim>\<open>Cancel\<close> fires the signal while the
  counter is 1, the cause latched is \<^verbatim>\<open>ErrorGroupCanceled\<close>, and the next call of \<^verbatim>\<open>Wait\<close>
  returns at once, but with the cached \<^verbatim>\<open>nil\<close> and not with the latched cause.
\<close>

theorem signal_after_cached_result_counterexample:
  "run [CallWait, WaitEnter, WatcherWake, SelectCh, ReturnCause, WaitReturn None,
        CallCo (\<lambda>c. None), CallCancel] (start New)
     = Some \<lparr> group = \<lparr> wg = 1, errOnce = True, waitFunction = Valid None,
                         ctxParent = Background, ctx = Ended Canceled ErrorGroupCanceled \<rparr>,
              routines = [RunCo (\<lambda>c. None)], watcher = Delivered, pending = 0 \<rparr>
   \<and> run [CallWait, WaitReturn None]
         \<lparr> group = \<lparr> wg = 1, errOnce = True, waitFunction = Valid None,
                     ctxParent = Background, ctx = Ended Canceled ErrorGroupCanceled \<rparr>,
           routines = [RunCo (\<lambda>c. None)], watcher = Delivered, pending = 0 \<rparr>
     = Some \<lparr> group = \<lparr> wg = 1, errOnce = True, waitFunction = Valid None,
                         ctxParent = Background, ctx = Ended Canceled ErrorGroupCanceled \<rparr>,
              routines = [RunCo (\<lambda>c. None)], watcher = Delivered, pending = 0 \<rparr>
   \<and> run [CallWait, WaitReturn (Some ErrorGroupCanceled)]
         \<lparr> group = \<lparr> wg = 1, errOnce = True, waitFunction = Valid None,
                     ctxParent = Background, ctx = Ended Canceled ErrorGroupCanceled \<rparr>,
           routines = [RunCo (\<lambda>c. None)], watcher = Delivered, pending = 0 \<rparr>
     = None"
  by (simp add: start_def New_def NewWithContext_def Co_def Cancel_def errored_def cancelCause_def)

text \<open>
  C8. A group built on a parent that is already canceled, with \<^verbatim>\<open>Err()\<close> \<open>e\<close> and cause
  \<open>k\<close>. The group's context is canceled from the start with the cause \<open>k\<close> and keeps it.
  Both cases of the \<^verbatim>\<open>select\<close> are open on the fresh group, the one on \<^verbatim>\<open>g.ctx.Done()\<close> and
  the one on the watcher's channel (the counter is zero), and \<^verbatim>\<open>Wait\<close> returns by either:
  it does not block. By either it returns \<open>k\<close>, the cause of the parent, and so does every
  call of \<^verbatim>\<open>Wait\<close> in every schedule: never \<^verbatim>\<open>nil\<close>, and \<^verbatim>\<open>ErrorParentContextCanceled\<close> only
  if \<open>k\<close> is that value.
\<close>

theorem canceled_parent_before_work:
  assumes "run evs (start (NewWithContext (Ended e k))) = Some s"
  shows "Cause (ctx (group s)) = Some k
       \<and> (WaitReturn r \<in> set evs \<longrightarrow> r = Some k)
       \<and> run [CallWait, WaitEnter, SelectDone, ErroredParent, ReturnCause, WaitReturn (Some k)]
             (start (NewWithContext (Ended e k))) \<noteq> None
       \<and> run [CallWait, WaitEnter, WatcherWake, SelectCh, ReturnCause, WaitReturn (Some k)]
             (start (NewWithContext (Ended e k))) \<noteq> None"
proof -
  have c0: "Cause (ctx (group (start (NewWithContext (Ended e k))))) = Some k"
    by (simp add: start_def NewWithContext_def)
  have nv: "\<not> is_valid (waitFunction (group (start (NewWithContext (Ended e k)))))"
    by (simp add: start_def NewWithContext_def)
  from run_ctx_Done [OF assms Cause_Done [OF c0]] c0
  have a: "Cause (ctx (group s)) = Some k" by simp
  have b: "WaitReturn r \<in> set evs \<longrightarrow> r = Some k"
    using run_returns_latched [OF assms c0 nv] by blast
  have c: "run [CallWait, WaitEnter, SelectDone, ErroredParent, ReturnCause, WaitReturn (Some k)]
             (start (NewWithContext (Ended e k))) \<noteq> None"
    by (simp add: start_def NewWithContext_def errored_def cancelCause_def)
  have d: "run [CallWait, WaitEnter, WatcherWake, SelectCh, ReturnCause, WaitReturn (Some k)]
             (start (NewWithContext (Ended e k))) \<noteq> None"
    by (simp add: start_def NewWithContext_def)
  from a b c d show ?thesis by blast
qed

theorem canceled_parent_before_work_witness:
  "run [CallWait, WaitEnter, WatcherWake, SelectCh, ReturnCause, WaitReturn (Some Canceled)]
       (start (NewWithContext (Ended Canceled Canceled)))
     = Some \<lparr> group = \<lparr> wg = 0, errOnce = False, waitFunction = Valid (Some Canceled),
                         ctxParent = Ended Canceled Canceled, ctx = Ended Canceled Canceled \<rparr>,
              routines = [], watcher = Delivered, pending = 0 \<rparr>
   \<and> run [CallWait, WaitEnter, SelectDone, ErroredParent, ReturnCause, WaitReturn (Some Canceled)]
       (start (NewWithContext (Ended Canceled Canceled)))
     = Some \<lparr> group = \<lparr> wg = 0, errOnce = True, waitFunction = Valid (Some Canceled),
                         ctxParent = Ended Canceled Canceled, ctx = Ended Canceled Canceled \<rparr>,
              routines = [], watcher = WgWait, pending = 0 \<rparr>
   \<and> run [CallWait, WaitEnter, SelectDone, ErroredParent, ReturnCause,
          WaitReturn (Some ErrorParentContextCanceled)]
       (start (NewWithContext (Ended Canceled Canceled))) = None
   \<and> run [CallWait, WaitEnter, WatcherWake, SelectCh, ReturnCause,
          WaitReturn (Some ErrorParentContextCanceled)]
       (start (NewWithContext (Ended Canceled Canceled))) = None
   \<and> run [CallWait, WaitEnter, WatcherWake, SelectCh, ReturnCause, WaitReturn None]
       (start (NewWithContext (Ended Canceled Canceled))) = None"
proof -
  have a: "run [CallWait, WaitEnter, WatcherWake, SelectCh, ReturnCause, WaitReturn (Some Canceled)]
       (start (NewWithContext (Ended Canceled Canceled)))
     = Some \<lparr> group = \<lparr> wg = 0, errOnce = False, waitFunction = Valid (Some Canceled),
                         ctxParent = Ended Canceled Canceled, ctx = Ended Canceled Canceled \<rparr>,
              routines = [], watcher = Delivered, pending = 0 \<rparr>"
    by (simp add: start_def NewWithContext_def)
  have b: "run [CallWait, WaitEnter, SelectDone, ErroredParent, ReturnCause, WaitReturn (Some Canceled)]
       (start (NewWithContext (Ended Canceled Canceled)))
     = Some \<lparr> group = \<lparr> wg = 0, errOnce = True, waitFunction = Valid (Some Canceled),
                         ctxParent = Ended Canceled Canceled, ctx = Ended Canceled Canceled \<rparr>,
              routines = [], watcher = WgWait, pending = 0 \<rparr>"
    by (simp add: start_def NewWithContext_def errored_def cancelCause_def)
  have c: "run [CallWait, WaitEnter, SelectDone, ErroredParent, ReturnCause,
          WaitReturn (Some ErrorParentContextCanceled)]
       (start (NewWithContext (Ended Canceled Canceled))) = None"
    by (simp add: start_def NewWithContext_def errored_def cancelCause_def)
  have d: "run [CallWait, WaitEnter, WatcherWake, SelectCh, ReturnCause,
          WaitReturn (Some ErrorParentContextCanceled)]
       (start (NewWithContext (Ended Canceled Canceled))) = None"
    by (simp add: start_def NewWithContext_def)
  have e: "run [CallWait, WaitEnter, WatcherWake, SelectCh, ReturnCause, WaitReturn None]
       (start (NewWithContext (Ended Canceled Canceled))) = None"
    by (simp add: start_def NewWithContext_def)
  from canceled_parent_before_work [OF a] a b c d e show ?thesis by simp
qed

text \<open>
  C9. A run in which the watcher of \<^verbatim>\<open>wait\<close> panics. One task is started; a caller enters
  \<^verbatim>\<open>Wait\<close>, \<^verbatim>\<open>wait\<close> starts the watcher, and the watcher reads the counter 1 in
  \<^verbatim>\<open>g.wg.Wait()\<close> and goes to sleep. The task returns and its \<^verbatim>\<open>g.done()\<close> brings the counter
  to zero, which releases the watcher. Before the watcher runs again, a second task is
  started by \<^verbatim>\<open>Go\<close>, and the counter is 1. The context is live and the watcher is not at
  its send, so neither case of the \<^verbatim>\<open>select\<close> is ready; the watcher cannot return from
  \<^verbatim>\<open>g.wg.Wait()\<close>; its step is the panic "WaitGroup is reused before previous Wait has
  returned", in a goroutine that \<^verbatim>\<open>wait\<close> has started and that no one recovers. The same
  panic is still open after a call of \<^verbatim>\<open>Cancel\<close> has canceled the context: the process can
  end there although the caller of \<^verbatim>\<open>Wait\<close> has not returned.
\<close>

theorem watcher_panics_on_reuse:
  "run [CallGo (\<lambda>_. None), CallWait, WaitEnter, WatcherBlock, TaskReturn 0, TaskDone 0,
        CallGo (\<lambda>_. None)] (start New)
     = Some \<lparr> group = \<lparr> wg = 1, errOnce = False, waitFunction = AtSelect,
                         ctxParent = Background, ctx = Active \<rparr>,
              routines = [Exited, RunTask (\<lambda>_. None)], watcher = Released, pending = 1 \<rparr>
   \<and> step SelectDone
         \<lparr> group = \<lparr> wg = 1, errOnce = False, waitFunction = AtSelect,
                     ctxParent = Background, ctx = Active \<rparr>,
           routines = [Exited, RunTask (\<lambda>_. None)], watcher = Released, pending = 1 \<rparr> = None
   \<and> step SelectCh
         \<lparr> group = \<lparr> wg = 1, errOnce = False, waitFunction = AtSelect,
                     ctxParent = Background, ctx = Active \<rparr>,
           routines = [Exited, RunTask (\<lambda>_. None)], watcher = Released, pending = 1 \<rparr> = None
   \<and> step WatcherWake
         \<lparr> group = \<lparr> wg = 1, errOnce = False, waitFunction = AtSelect,
                     ctxParent = Background, ctx = Active \<rparr>,
           routines = [Exited, RunTask (\<lambda>_. None)], watcher = Released, pending = 1 \<rparr> = None
   \<and> step WatcherPanic
         \<lparr> group = \<lparr> wg = 1, errOnce = False, waitFunction = AtSelect,
                     ctxParent = Background, ctx = Active \<rparr>,
           routines = [Exited, RunTask (\<lambda>_. None)], watcher = Released, pending = 1 \<rparr>
     = Some \<lparr> group = \<lparr> wg = 1, errOnce = False, waitFunction = AtSelect,
                         ctxParent = Background, ctx = Active \<rparr>,
              routines = [Exited, RunTask (\<lambda>_. None)], watcher = Panicked, pending = 1 \<rparr>
   \<and> aborted
         \<lparr> group = \<lparr> wg = 1, errOnce = False, waitFunction = AtSelect,
                     ctxParent = Background, ctx = Active \<rparr>,
           routines = [Exited, RunTask (\<lambda>_. None)], watcher = Panicked, pending = 1 \<rparr>
   \<and> run [CallCancel, WatcherPanic]
         \<lparr> group = \<lparr> wg = 1, errOnce = False, waitFunction = AtSelect,
                     ctxParent = Background, ctx = Active \<rparr>,
           routines = [Exited, RunTask (\<lambda>_. None)], watcher = Released, pending = 1 \<rparr>
     = Some \<lparr> group = \<lparr> wg = 1, errOnce = True, waitFunction = AtSelect,
                         ctxParent = Background, ctx = Ended Canceled ErrorGroupCanceled \<rparr>,
              routines = [Exited, RunTask (\<lambda>_. None)], watcher = Panicked, pending = 1 \<rparr>"
  by (simp add: start_def New_def NewWithContext_def Go_def report_def done_group_def
        release_def aborted_def Cancel_def errored_def cancelCause_def)

text \<open>
  C10. A group built on a parent that is not canceled, on which nothing is ever started,
  \<^verbatim>\<open>Cancel\<close> is never called and whose parent is never canceled: the counter is and stays
  zero, every value a caller of \<^verbatim>\<open>Wait\<close> gets is \<^verbatim>\<open>nil\<close>, and at every moment a call of
  \<^verbatim>\<open>Wait\<close> returns \<^verbatim>\<open>nil\<close> by the steps of \<^verbatim>\<open>wait\<close> and its watcher alone. For the fresh
  group these steps are: enter \<^verbatim>\<open>wait\<close>, the watcher passes \<^verbatim>\<open>g.wg.Wait()\<close> on the zero
  counter, \<^verbatim>\<open>select\<close> receives from it, \<^verbatim>\<open>context.Cause\<close> is \<^verbatim>\<open>nil\<close>.
\<close>

theorem fresh_group_wait_nil:
  assumes "\<not> Done p"
      and "\<forall>e\<in>set evs. benign e \<and> \<not> scheduling e"
      and "run evs (start (NewWithContext p)) = Some s"
  shows "(WaitReturn r \<in> set evs \<longrightarrow> r = None)
       \<and> wg (group s) = 0 \<and> routines s = []
       \<and> (\<exists>s'. run (Wait_alone s None) s = Some s')
       \<and> Wait_alone (start (NewWithContext p)) None =
           [CallWait, WaitEnter, WatcherWake, SelectCh, ReturnCause, WaitReturn None]
       \<and> run [CallWait, WaitEnter, WatcherWake, SelectCh, ReturnCause, WaitReturn None]
             (start (NewWithContext p)) \<noteq> None"
proof -
  have q0: "quiet (start (NewWithContext p))" by (rule quiet_start [OF assms(1)])
  have q: "quiet s" by (rule run_quiet [OF assms(3) q0 assms(2)])
  have a: "WaitReturn r \<in> set evs \<longrightarrow> r = None"
    using run_quiet_returns [OF assms(3) q0 assms(2)] by blast
  have "filter scheduling evs = []" using assms(2) by (simp add: filter_empty_conv)
  with run_length_routines [OF assms(3)] have b: "routines s = []" by (simp add: start_def)
  with q have c: "wg (group s) = 0" by (simp add: quiet_def coherent_def outstanding_def)
  from q have "coherent s" "\<not> Done (ctx (group s))"
      "is_valid (waitFunction (group s)) \<longrightarrow> waitFunction (group s) = Valid None"
      "watcher s \<noteq> Panicked"
    by (simp_all add: quiet_def)
  from Wait_alone_drained [OF this(1,2) c this(3,4)]
  have d: "\<exists>s'. run (Wait_alone s None) s = Some s'" by blast
  from assms(1) have e: "Wait_alone (start (NewWithContext p)) None =
           [CallWait, WaitEnter, WatcherWake, SelectCh, ReturnCause, WaitReturn None]"
    by (cases p) (simp_all add: Wait_alone_def wait_path_def start_def NewWithContext_def)
  from assms(1) have f: "run [CallWait, WaitEnter, WatcherWake, SelectCh, ReturnCause, WaitReturn None]
             (start (NewWithContext p)) \<noteq> None"
    by (cases p) (simp_all add: start_def NewWithContext_def)
  from a b c d e f show ?thesis by blast
qed

theorem fresh_group_wait_nil_witness:
  "run [CallWait, CallWait, WaitEnter, WatcherWake, SelectCh, ReturnCause,
          WaitReturn None, WaitReturn None] (start (NewWithContext Active))
     = Some \<lparr> group = \<lparr> wg = 0, errOnce = False, waitFunction = Valid None,
                         ctxParent = Active, ctx = Active \<rparr>,
              routines = [], watcher = Delivered, pending = 0 \<rparr>
   \<and> run [CallWait, WaitEnter, WatcherWake, SelectCh, ReturnCause, WaitReturn None]
          (start (NewWithContext Active)) \<noteq> None"
proof -
  have a: "\<not> Done Active" by simp
  have b: "\<forall>e\<in>set [CallWait, CallWait, WaitEnter, WatcherWake, SelectCh, ReturnCause,
                 WaitReturn None, WaitReturn None]. benign e \<and> \<not> scheduling e"
    by simp
  have c: "run [CallWait, CallWait, WaitEnter, WatcherWake, SelectCh, ReturnCause,
          WaitReturn None, WaitReturn None] (start (NewWithContext Active))
     = Some \<lparr> group = \<lparr> wg = 0, errOnce = False, waitFunction = Valid None,
                         ctxParent = Active, ctx = Active \<rparr>,
              routines = [], watcher = Delivered, pending = 0 \<rparr>"
    by (simp add: start_def NewWithContext_def)
  from fresh_group_wait_nil [OF a b c, of None] c show ?thesis by simp
qed

end
